theory Spec2Isabelle
  imports Main "HOL-Library.Char_ord" "HOL-Library.AList"
begin

section \<open>The radix tree of radix.go\<close>

text \<open>
  The Go program keeps its tree as a graph of heap objects: a node points to its parent,
  and to a map object that points to the children. Remove copies a map reference from one
  node to another, so two nodes can share one map. The model therefore keeps an explicit
  store. A \<open>*Radix\<close> is an index into \<open>nodes\<close>, a \<open>map[byte]*Radix\<close> is an index into
  \<open>cmaps\<close>; a pointer that may be nil is an \<open>option\<close>. A Go pointer that is not nil
  refers to an object, so a field is read through an index with \<open>!\<close>; \<open>heap_ok\<close> below
  says that the indices of a heap are in range. A Go string is a sequence of bytes:
  \<open>string\<close>, with the byte order of \<open>Char_ord\<close>. A map is the list of its entries; Go does
  not fix the order in which \<open>range\<close> visits them, the model visits them in list order
  (the helpers that scan a map compute a minimum or a maximum, which no order changes).
  \<open>Value\<close> is an \<open>interface{}\<close>: \<open>None\<close> is nil, \<open>Some v\<close> any other value.

  Recursion and loops of the source that follow pointers need not end on a heap with a
  cycle. Each such function of the model takes a number of steps it may make, and gives
  \<open>OutOfFuel\<close> when they are used up.
\<close>

type_synonym addr = nat
type_synonym mref = nat

datatype error = IndexOutOfRange | NilDeref | NegativeLen | OutOfFuel

record 'v Radix =
  children :: mref
  key :: string
  parent :: "addr option"
  Value :: "'v option"

record 'v heap =
  nodes :: "'v Radix list"
  cmaps :: "(char \<times> addr) list list"

definition node :: "'v heap \<Rightarrow> addr \<Rightarrow> 'v Radix" where
  "node h a = nodes h ! a"

definition cmap :: "'v heap \<Rightarrow> mref \<Rightarrow> (char \<times> addr) list" where
  "cmap h m = cmaps h ! m"

text \<open>\<open>r.children\<close> read as a map value, and \<open>r.children[b]\<close>.\<close>

definition kids :: "'v heap \<Rightarrow> addr \<Rightarrow> (char \<times> addr) list" where
  "kids h r = cmap h (children (node h r))"

definition child_at :: "'v heap \<Rightarrow> addr \<Rightarrow> char \<Rightarrow> addr option" where
  "child_at h r b = map_of (kids h r) b"

text \<open>Assignments to the fields of the node at an address, and to a map object.\<close>

definition set_node :: "'v heap \<Rightarrow> addr \<Rightarrow> 'v Radix \<Rightarrow> 'v heap" where
  "set_node h a n = h\<lparr>nodes := (nodes h)[a := n]\<rparr>"

definition set_key :: "'v heap \<Rightarrow> addr \<Rightarrow> string \<Rightarrow> 'v heap" where
  "set_key h a k = set_node h a ((node h a)\<lparr>key := k\<rparr>)"

definition set_Value :: "'v heap \<Rightarrow> addr \<Rightarrow> 'v option \<Rightarrow> 'v heap" where
  "set_Value h a v = set_node h a ((node h a)\<lparr>Value := v\<rparr>)"

definition set_parent :: "'v heap \<Rightarrow> addr \<Rightarrow> addr option \<Rightarrow> 'v heap" where
  "set_parent h a p = set_node h a ((node h a)\<lparr>parent := p\<rparr>)"

definition set_children :: "'v heap \<Rightarrow> addr \<Rightarrow> mref \<Rightarrow> 'v heap" where
  "set_children h a m = set_node h a ((node h a)\<lparr>children := m\<rparr>)"

definition set_cmap :: "'v heap \<Rightarrow> mref \<Rightarrow> (char \<times> addr) list \<Rightarrow> 'v heap" where
  "set_cmap h m al = h\<lparr>cmaps := (cmaps h)[m := al]\<rparr>"

text \<open>\<open>r.children[b] = c\<close> and \<open>delete(r.children, b)\<close>: they change the map object.\<close>

definition put_child :: "'v heap \<Rightarrow> addr \<Rightarrow> char \<Rightarrow> addr \<Rightarrow> 'v heap" where
  "put_child h r b c = set_cmap h (children (node h r)) (AList.update b c (kids h r))"

definition delete_child :: "'v heap \<Rightarrow> addr \<Rightarrow> char \<Rightarrow> 'v heap" where
  "delete_child h r b = set_cmap h (children (node h r)) (AList.delete b (kids h r))"

text \<open>\<open>&Radix{make(map[byte]*Radix), k, p, v}\<close>: a new map object, then a new node.\<close>

definition alloc :: "'v heap \<Rightarrow> string \<Rightarrow> addr option \<Rightarrow> 'v option \<Rightarrow> 'v heap \<times> addr" where
  "alloc h k p v =
     (h\<lparr>nodes := nodes h @ [\<lparr>children = length (cmaps h), key = k, parent = p, Value = v\<rparr>],
        cmaps := cmaps h @ [[]]\<rparr>,
      length (nodes h))"

definition empty_heap :: "'v heap" where
  "empty_heap = \<lparr>nodes = [], cmaps = []\<rparr>"

definition New :: "'v heap \<Rightarrow> 'v heap \<times> addr" where
  "New h = alloc h [] None None"

subsection \<open>The helpers on strings and on maps\<close>

text \<open>
  longestCommonPrefix: the loop compares \<open>key[x]\<close> and \<open>bar[x]\<close> from \<open>x = 0\<close> and stops at
  the first difference or at the end of either string.
\<close>

fun common_len :: "string \<Rightarrow> string \<Rightarrow> nat" where
  "common_len (a # as) (b # bs) = (if a = b then Suc (common_len as bs) else 0)"
| "common_len _ _ = 0"

definition longestCommonPrefix :: "string \<Rightarrow> string \<Rightarrow> string \<times> nat" where
  "longestCommonPrefix k bar =
     (if k = [] \<or> bar = [] then ([], 0)
      else let x = common_len k bar in (take x k, x))"

definition byte_int :: "char \<Rightarrow> int" where
  "byte_int c = of_char c"

definition smallestSuccessor :: "(char \<times> addr) list \<Rightarrow> char \<Rightarrow> char \<times> bool" where
  "smallestSuccessor m kb =
     (let (guard, successor, found) =
        fold (\<lambda>(k, _) (guard, successor, found).
                if k > kb \<and> byte_int k < guard then (byte_int k, k, True)
                else (guard, successor, found))
             m (256, CHR 0x00, False)
      in (successor, found))"

definition leftMostChild :: "(char \<times> addr) list \<Rightarrow> char" where
  "leftMostChild m = fold (\<lambda>(k, _) left. if k < left then k else left) m (CHR 0xFF)"

definition largestPredecessor :: "(char \<times> addr) list \<Rightarrow> char \<Rightarrow> char \<times> bool" where
  "largestPredecessor m kb =
     (let (guard, pred, found) =
        fold (\<lambda>(k, _) (guard, pred, found).
                if k < kb \<and> byte_int k > guard then (byte_int k, k, True)
                else (guard, pred, found))
             m (- 1, CHR 0x00, False)
      in (pred, found))"

definition rightMostChild :: "(char \<times> addr) list \<Rightarrow> char" where
  "rightMostChild m = fold (\<lambda>(k, _) right. if k > right then k else right) m (CHR 0x00)"

subsection \<open>Key\<close>

text \<open>
  Key walks the parent pointers from the node to a nil parent, putting each fragment in
  front of the result. On a cyclic parent chain the Go loop does not end; the model counts
  its steps and gives \<open>OutOfFuel\<close> when they are used up.
\<close>

fun Key_loop :: "nat \<Rightarrow> 'v heap \<Rightarrow> addr option \<Rightarrow> string \<Rightarrow> error + string" where
  "Key_loop n h None s = Inr s"
| "Key_loop 0 h (Some p) s = Inl OutOfFuel"
| "Key_loop (Suc n) h (Some p) s = Key_loop n h (parent (node h p)) (key (node h p) @ s)"

definition Key :: "nat \<Rightarrow> 'v heap \<Rightarrow> addr \<Rightarrow> error + string" where
  "Key n h r = Key_loop n h (Some r) []"

subsection \<open>Reading a key, Insert and insert\<close>

text \<open>
  A reader is what its one call of \<open>Read\<close> does: it writes \<open>rd_bytes\<close> (cut to the buffer's
  length) at the start of the buffer and returns their number, and an error or not. readKey
  sets the global MaxKeySize to 512 when it is 0, makes a zeroed buffer of that size, and
  returns the whole buffer as the key when the read gave no error and at least one byte.
\<close>

record reader =
  rd_bytes :: string
  rd_err :: bool

definition readKey :: "int \<Rightarrow> reader \<Rightarrow> error + (string \<times> int)" where
  "readKey MaxKeySize rd =
     (let mks = (if MaxKeySize = 0 then 512 else MaxKeySize) in
      if mks < 0 then Inl NegativeLen
      else let got = take (nat mks) (rd_bytes rd);
               b = got @ replicate (nat mks - length got) (CHR 0x00)
           in if \<not> rd_err rd \<and> length got > 0 then Inr (b, mks) else Inr ([], mks))"

fun insert_r :: "nat \<Rightarrow> 'v heap \<Rightarrow> addr \<Rightarrow> string \<Rightarrow> 'v option \<Rightarrow> error + ('v heap \<times> addr)" where
  "insert_r 0 h r k v = Inl OutOfFuel"
| "insert_r (Suc n) h r [] v = Inl IndexOutOfRange"
| "insert_r (Suc n) h r (k0 # ks) v =
     (case child_at h r k0 of
        None \<Rightarrow>
          (let (h1, c) = alloc h (k0 # ks) (Some r) v
           in Inr (put_child h1 r k0 c, c))
      | Some child \<Rightarrow>
          if k0 # ks = key (node h child) then Inr (set_Value h child v, child)
          else
            let (commonPrefix, prefixEnd) = longestCommonPrefix (k0 # ks) (key (node h child))
            in if commonPrefix = key (node h child)
               then insert_r n h child (drop prefixEnd (k0 # ks)) v
               else
                 let (h1, newChild) = alloc h commonPrefix (Some r) None
                 in (case commonPrefix of
                       [] \<Rightarrow> Inl IndexOutOfRange
                     | c0 # _ \<Rightarrow>
                         let h2 = put_child h1 r c0 newChild;
                             h3 = set_key h2 child (drop prefixEnd (key (node h2 child)))
                         in (case key (node h3 child) of
                               [] \<Rightarrow> Inl IndexOutOfRange
                             | d0 # _ \<Rightarrow>
                                 let h4 = put_child h3 newChild d0 child;
                                     h5 = set_parent h4 child (Some newChild)
                                 in if k0 # ks \<noteq> key (node h5 newChild)
                                    then (case insert_r n h5 newChild (drop prefixEnd (k0 # ks)) v of
                                            Inl e \<Rightarrow> Inl e
                                          | Inr (h6, _) \<Rightarrow> Inr (h6, newChild))
                                    else Inr (set_Value h5 newChild v, newChild))))"

text \<open>
  Insert reads the key and returns nil when the key is NOT empty; an empty key goes on to
  insert, as the source has it.
\<close>

definition Insert :: "nat \<Rightarrow> int \<Rightarrow> 'v heap \<Rightarrow> addr \<Rightarrow> reader \<Rightarrow> 'v option
    \<Rightarrow> error + ('v heap \<times> int \<times> addr option)" where
  "Insert n MaxKeySize h r rd v =
     (case readKey MaxKeySize rd of
        Inl e \<Rightarrow> Inl e
      | Inr (k, mks) \<Rightarrow>
          if k \<noteq> [] then Inr (h, mks, None)
          else (case insert_r n h r k v of
                  Inl e \<Rightarrow> Inl e
                | Inr (h', a) \<Rightarrow> Inr (h', mks, Some a)))"

subsection \<open>Find and find\<close>

text \<open>
  The loop that find runs at each of its three exits: while the node has no value, go to
  its parent; a nil parent ends the search with no node.
\<close>

fun find_up :: "nat \<Rightarrow> 'v heap \<Rightarrow> addr \<Rightarrow> error + addr option" where
  "find_up 0 h r = Inl OutOfFuel"
| "find_up (Suc n) h r =
     (if Value (node h r) = None
      then (case parent (node h r) of
              None \<Rightarrow> Inr None
            | Some p \<Rightarrow> find_up n h p)
      else Inr (Some r))"

definition find_back :: "nat \<Rightarrow> 'v heap \<Rightarrow> addr \<Rightarrow> error + (addr option \<times> bool)" where
  "find_back n h r =
     (if Value (node h r) \<noteq> None then Inr (Some r, False)
      else (case find_up n h r of
              Inl e \<Rightarrow> Inl e
            | Inr res \<Rightarrow> Inr (res, False)))"

fun find_r :: "nat \<Rightarrow> 'v heap \<Rightarrow> addr \<Rightarrow> string \<Rightarrow> error + (addr option \<times> bool)" where
  "find_r n h r [] = Inr (None, False)"
| "find_r 0 h r (k0 # ks) = Inl OutOfFuel"
| "find_r (Suc n) h r (k0 # ks) =
     (case child_at h r k0 of
        None \<Rightarrow> find_back (Suc n) h r
      | Some child \<Rightarrow>
          if k0 # ks = key (node h child)
          then (if Value (node h child) \<noteq> None then Inr (Some child, True)
                else (case find_up (Suc n) h child of
                        Inl e \<Rightarrow> Inl e
                      | Inr res \<Rightarrow> Inr (res, False)))
          else
            let (commonPrefix, prefixEnd) = longestCommonPrefix (k0 # ks) (key (node h child))
            in if key (node h child) \<noteq> commonPrefix then find_back (Suc n) h r
               else find_r n h child (drop prefixEnd (k0 # ks)))"

definition Find :: "nat \<Rightarrow> int \<Rightarrow> 'v heap \<Rightarrow> addr \<Rightarrow> reader
    \<Rightarrow> error + (int \<times> addr option \<times> bool)" where
  "Find n MaxKeySize h r rd =
     (case readKey MaxKeySize rd of
        Inl e \<Rightarrow> Inl e
      | Inr (k, mks) \<Rightarrow>
          (case find_r n h r k of
             Inl e \<Rightarrow> Inl e
           | Inr (a, exact) \<Rightarrow> Inr (mks, a, exact)))"

subsection \<open>Next and Prev\<close>

text \<open>
  \<open>for ret.Value == nil { ret = ret.children[leftMostChild(ret.children)] }\<close>: a map
  lookup that misses gives a nil pointer, and reading its Value fails.
\<close>

fun skip_nil :: "nat \<Rightarrow> 'v heap \<Rightarrow> addr option \<Rightarrow> error + addr" where
  "skip_nil n h None = Inl NilDeref"
| "skip_nil 0 h (Some ret) = Inl OutOfFuel"
| "skip_nil (Suc n) h (Some ret) =
     (if Value (node h ret) = None
      then skip_nil n h (child_at h ret (leftMostChild (kids h ret)))
      else Inr ret)"

text \<open>\<open>for _, x := range r.children { return x }\<close>: the first entry visited, if any.\<close>

definition first_child :: "'v heap \<Rightarrow> addr \<Rightarrow> addr option" where
  "first_child h r = (case kids h r of [] \<Rightarrow> None | (_, x) # _ \<Rightarrow> Some x)"

fun next_r :: "nat \<Rightarrow> 'v heap \<Rightarrow> addr \<Rightarrow> error + addr option" where
  "next_r 0 h r = Inl OutOfFuel"
| "next_r (Suc n) h r =
     (case (if parent (node h r) = None then first_child h r else None) of
        Some x \<Rightarrow> Inr (Some x)
      | None \<Rightarrow>
          (case parent (node h r) of
             None \<Rightarrow> Inl NilDeref
           | Some p \<Rightarrow>
               (case key (node h r) of
                  [] \<Rightarrow> Inl IndexOutOfRange
                | k0 # _ \<Rightarrow>
                    let (neighbor, found) = smallestSuccessor (kids h p) k0
                    in if found
                       then (case child_at h p neighbor of
                               None \<Rightarrow> Inl NilDeref
                             | Some ret \<Rightarrow>
                                 if Value (node h ret) = None
                                 then Inr (child_at h ret (leftMostChild (kids h ret)))
                                 else Inr (Some ret))
                       else next_r n h p)))"

definition Next :: "nat \<Rightarrow> 'v heap \<Rightarrow> addr \<Rightarrow> error + addr option" where
  "Next n h r =
     (if length (key (node h r)) = 0 then Inr None
      else
        (case (if parent (node h r) = None then first_child h r else None) of
           Some x \<Rightarrow> Inr (Some x)
         | None \<Rightarrow>
             if length (kids h r) = 0
             then (case parent (node h r) of
                     None \<Rightarrow> Inl NilDeref
                   | Some p \<Rightarrow>
                       (case key (node h r) of
                          [] \<Rightarrow> Inl IndexOutOfRange
                        | k0 # _ \<Rightarrow>
                            let (neighbor, found) = smallestSuccessor (kids h p) k0
                            in if found
                               then (case skip_nil n h (child_at h p neighbor) of
                                       Inl e \<Rightarrow> Inl e
                                     | Inr ret \<Rightarrow> Inr (Some ret))
                               else next_r n h r))
             else (case skip_nil n h (child_at h r (leftMostChild (kids h r))) of
                     Inl e \<Rightarrow> Inl e
                   | Inr ret \<Rightarrow> Inr (Some ret))))"

text \<open>prev goes down along the largest child until a node without children.\<close>

fun prev_r :: "nat \<Rightarrow> 'v heap \<Rightarrow> addr option \<Rightarrow> error + addr" where
  "prev_r n h None = Inl NilDeref"
| "prev_r 0 h (Some r) = Inl OutOfFuel"
| "prev_r (Suc n) h (Some r) =
     (if length (kids h r) = 0 then Inr r
      else prev_r n h (child_at h r (rightMostChild (kids h r))))"

text \<open>
  The loop of Prev once it has gone to the parent: a node with a value is the answer; at a
  node without value and without parent, go down along the largest children to a leaf.
\<close>

fun prev_up :: "nat \<Rightarrow> 'v heap \<Rightarrow> addr \<Rightarrow> error + addr" where
  "prev_up 0 h r = Inl OutOfFuel"
| "prev_up (Suc n) h r =
     (if Value (node h r) = None
      then (case parent (node h r) of
              None \<Rightarrow> prev_r n h (Some r)
            | Some p \<Rightarrow> prev_up n h p)
      else Inr r)"

definition Prev :: "nat \<Rightarrow> 'v heap \<Rightarrow> addr \<Rightarrow> error + addr option" where
  "Prev n h r =
     (if length (key (node h r)) = 0 then Inr None
      else
        (case (if parent (node h r) = None then first_child h r else None) of
           Some x \<Rightarrow> Inr (Some x)
         | None \<Rightarrow>
             (case parent (node h r) of
                None \<Rightarrow> Inl NilDeref
              | Some p \<Rightarrow>
                  (case key (node h r) of
                     [] \<Rightarrow> Inl IndexOutOfRange
                   | k0 # _ \<Rightarrow>
                       let (neighbor, found) = largestPredecessor (kids h p) k0
                       in if found
                          then (case prev_r n h (child_at h p neighbor) of
                                  Inl e \<Rightarrow> Inl e
                                | Inr ret \<Rightarrow> Inr (Some ret))
                          else (case prev_up n h p of
                                  Inl e \<Rightarrow> Inl e
                                | Inr ret \<Rightarrow> Inr (Some ret))))))"

subsection \<open>Remove and Len\<close>

text \<open>
  The case of one child runs its loop once, for the only entry of the map: four
  assignments to the fields of \<open>child\<close>, each reading the heap the one before left.
\<close>

definition collapse :: "'v heap \<Rightarrow> addr \<Rightarrow> addr \<Rightarrow> addr \<Rightarrow> 'v heap" where
  "collapse h r child subchild =
     (let h1 = set_key h child (key (node h child) @ key (node h subchild));
          h2 = set_Value h1 child (Value (node h1 subchild));
          h3 = set_children h2 child (children (node h2 subchild))
      in set_parent h3 child (Some r))"

fun Remove :: "nat \<Rightarrow> 'v heap \<Rightarrow> addr \<Rightarrow> string \<Rightarrow> error + ('v heap \<times> addr option)" where
  "Remove 0 h r k = Inl OutOfFuel"
| "Remove (Suc n) h r [] = Inl IndexOutOfRange"
| "Remove (Suc n) h r (k0 # ks) =
     (case child_at h r k0 of
        None \<Rightarrow> Inr (h, None)
      | Some child \<Rightarrow>
          if k0 # ks = key (node h child)
          then (case kids h child of
                  [] \<Rightarrow> Inr (delete_child h r k0, Some child)
                | [(_, subchild)] \<Rightarrow> Inr (collapse h r child subchild, Some child)
                | _ \<Rightarrow> Inr (set_Value h child None, Some child))
          else
            let (commonPrefix, prefixEnd) = longestCommonPrefix (k0 # ks) (key (node h child))
            in if key (node h child) \<noteq> commonPrefix then Inr (h, None)
               else Remove n h child (drop prefixEnd (k0 # ks)))"

text \<open>Len: one for a node with a value, plus the Len of every child.\<close>

fun Len :: "nat \<Rightarrow> 'v heap \<Rightarrow> addr option \<Rightarrow> error + int" where
  "Len n h None = Inr 0"
| "Len 0 h (Some r) = Inl OutOfFuel"
| "Len (Suc n) h (Some r) =
     fold (\<lambda>(_, child) acc.
             case acc of
               Inl e \<Rightarrow> Inl e
             | Inr i \<Rightarrow> (case Len n h (Some child) of
                           Inl e \<Rightarrow> Inl e
                         | Inr j \<Rightarrow> Inr (i + j)))
          (kids h r)
          (Inr (if Value (node h r) \<noteq> None then 1 else 0))"

section \<open>Notions of the specification\<close>

text \<open>
  The heaps a Go program can build: every map reference and every pointer stored in a
  node or in a map refers to an object that exists, a map has one entry for a byte, and a
  node that is a child in some map has a fragment that is not empty.
\<close>

definition heap_ok :: "'v heap \<Rightarrow> bool" where
  "heap_ok h \<longleftrightarrow>
     (\<forall>x \<in> set (nodes h).
        children x < length (cmaps h) \<and>
        (case parent x of None \<Rightarrow> True | Some p \<Rightarrow> p < length (nodes h))) \<and>
     (\<forall>m \<in> set (cmaps h).
        distinct (map fst m) \<and>
        (\<forall>(b, c) \<in> set m. c < length (nodes h) \<and> key (node h c) \<noteq> []))"

definition has_value :: "'v heap \<Rightarrow> addr \<Rightarrow> bool" where
  "has_value h a \<longleftrightarrow> Value (node h a) \<noteq> None"

text \<open>
  The parent chain of a node: the node, its parent, and so on up to a node without parent,
  if that is reached in \<open>n\<close> steps. The parent pointers are acyclic when every chain ends.
\<close>

fun chain :: "nat \<Rightarrow> 'v heap \<Rightarrow> addr \<Rightarrow> addr list option" where
  "chain 0 h a = None"
| "chain (Suc n) h a =
     (case parent (node h a) of
        None \<Rightarrow> Some [a]
      | Some p \<Rightarrow> map_option ((#) a) (chain n h p))"

definition parents_acyclic :: "'v heap \<Rightarrow> bool" where
  "parents_acyclic h \<longleftrightarrow>
     (\<forall>a \<in> set [0 ..< length (nodes h)]. chain (length (nodes h)) h a \<noteq> None)"

text \<open>
  The descent of the specification (4.3, 4.5): at each node take the child for the next
  byte of the key; the descent ends at that child with an exact match when the child's
  fragment is all that is left of the key, goes on below the child when the fragment is a
  proper prefix of what is left, and otherwise ends where it is, without a match.
\<close>

fun descend :: "nat \<Rightarrow> 'v heap \<Rightarrow> addr \<Rightarrow> string \<Rightarrow> error + (addr \<times> bool)" where
  "descend n h r [] = Inr (r, False)"
| "descend 0 h r (k0 # ks) = Inl OutOfFuel"
| "descend (Suc n) h r (k0 # ks) =
     (case child_at h r k0 of
        None \<Rightarrow> Inr (r, False)
      | Some c \<Rightarrow>
          if k0 # ks = key (node h c) then Inr (c, True)
          else if take (length (key (node h c))) (k0 # ks) = key (node h c)
               then descend n h c (drop (length (key (node h c))) (k0 # ks))
               else Inr (r, False))"

text \<open>
  The nodes below \<open>r\<close>, \<open>r\<close> first, in the order in which Len visits them: a node, then
  what is below each of its children. The children form a tree when no node is listed
  twice. \<open>count_values\<close> counts the listed nodes that have a value.
\<close>

fun reach :: "nat \<Rightarrow> 'v heap \<Rightarrow> addr \<Rightarrow> error + addr list" where
  "reach 0 h r = Inl OutOfFuel"
| "reach (Suc n) h r =
     fold (\<lambda>(_, child) acc.
             case acc of
               Inl e \<Rightarrow> Inl e
             | Inr xs \<Rightarrow> (case reach n h child of
                            Inl e \<Rightarrow> Inl e
                          | Inr ys \<Rightarrow> Inr (xs @ ys)))
          (kids h r)
          (Inr [r])"

definition count_values :: "'v heap \<Rightarrow> addr list \<Rightarrow> int" where
  "count_values h xs = int (length (filter (has_value h) xs))"

text \<open>
  The heaps that insert alone builds from a new tree, with the root at address 0. \<open>fk\<close>
  gives the full key of every node; it is a ghost of the proof, no field of the program.
  A node owns the map with its own index; an entry \<open>(b, c)\<close> of the map of \<open>a\<close> is a node
  \<open>c\<close> whose fragment starts with \<open>b\<close>, whose parent is \<open>a\<close>, and whose full key is that
  of \<open>a\<close> followed by the fragment; and every node but the root is such an entry of its
  parent's map.
\<close>

definition wf_ins :: "'v heap \<Rightarrow> (addr \<Rightarrow> string) \<Rightarrow> bool" where
  "wf_ins h fk \<longleftrightarrow>
     length (cmaps h) = length (nodes h) \<and> 0 < length (nodes h) \<and>
     parent (nodes h ! 0) = None \<and> key (nodes h ! 0) = [] \<and> fk 0 = [] \<and>
     (\<forall>a < length (nodes h). children (nodes h ! a) = a \<and> distinct (map fst (cmaps h ! a))) \<and>
     (\<forall>a < length (nodes h). \<forall>(b, c) \<in> set (cmaps h ! a).
          c < length (nodes h) \<and> key (nodes h ! c) \<noteq> [] \<and> hd (key (nodes h ! c)) = b \<and>
          parent (nodes h ! c) = Some a \<and> fk c = fk a @ key (nodes h ! c)) \<and>
     (\<forall>c < length (nodes h). c \<noteq> 0 \<longrightarrow>
          (\<exists>a < length (nodes h). parent (nodes h ! c) = Some a \<and>
               map_of (cmaps h ! a) (hd (key (nodes h ! c))) = Some c))"

text \<open>
  What one call of insert does to such a heap: \<open>t\<close> is the node of the inserted key and
  holds the value; every other node keeps its value, a new one has none; the full keys of
  the nodes that were there stay.
\<close>

definition ins_post ::
  "'v heap \<Rightarrow> (addr \<Rightarrow> string) \<Rightarrow> string \<Rightarrow> 'v option \<Rightarrow> 'v heap \<Rightarrow> (addr \<Rightarrow> string) \<Rightarrow> addr \<Rightarrow> bool" where
  "ins_post h fk fullk v h' fk' t \<longleftrightarrow>
     wf_ins h' fk' \<and> length (nodes h) \<le> length (nodes h') \<and>
     (\<forall>a < length (nodes h). fk' a = fk a) \<and>
     t < length (nodes h') \<and> fk' t = fullk \<and> Value (nodes h' ! t) = v \<and>
     (\<forall>a < length (nodes h'). a \<noteq> t \<longrightarrow>
        Value (nodes h' ! a) = (if a < length (nodes h) then Value (nodes h ! a) else None))"

definition nonempty_keys :: "(string \<times> 'v) list \<Rightarrow> bool" where
  "nonempty_keys kvs \<longleftrightarrow> (\<forall>(k, v) \<in> set kvs. k \<noteq> [])"

section \<open>Examples\<close>

text \<open>
  A driver in the manner of the tests: insert the pairs one after the other at \<open>r\<close>.
  insert makes one call for each fragment it passes and one more for the new leaf, so
  the length of the key and one is fuel enough.
\<close>

fun insert_all :: "'v heap \<Rightarrow> addr \<Rightarrow> (string \<times> 'v) list \<Rightarrow> error + 'v heap" where
  "insert_all h r [] = Inr h"
| "insert_all h r ((k, v) # kvs) =
     (case insert_r (Suc (length k)) h r k (Some v) of
        Inl e \<Rightarrow> Inl e
      | Inr (h', _) \<Rightarrow> insert_all h' r kvs)"

text \<open>The tree of the keys x, xbc and xbd: the node of xb (at 4) has no value.\<close>

definition tree_x :: "nat heap" where
  "tree_x =
     \<lparr>nodes =
        [\<lparr>children = 0, key = [], parent = None, Value = None\<rparr>,
         \<lparr>children = 1, key = ''x'', parent = Some 0, Value = Some 1\<rparr>,
         \<lparr>children = 2, key = ''c'', parent = Some 3, Value = Some 2\<rparr>,
         \<lparr>children = 3, key = ''b'', parent = Some 1, Value = None\<rparr>,
         \<lparr>children = 4, key = ''d'', parent = Some 3, Value = Some 3\<rparr>],
      cmaps = [[(CHR ''x'', 1)], [(CHR ''b'', 3)], [], [(CHR ''c'', 2), (CHR ''d'', 4)], []]\<rparr>"

text \<open>
  The trees of the examples, as insert and Remove build them from a new tree. The first
  is the tree of xa, xbc and xbd.
\<close>

definition tree_xa :: "nat heap" where
  "tree_xa =
     \<lparr>nodes =
        [\<lparr>children = 0, key = [], parent = None, Value = None\<rparr>,
         \<lparr>children = 1, key = ''a'', parent = Some 2, Value = Some 1\<rparr>,
         \<lparr>children = 2, key = ''x'', parent = Some 0, Value = None\<rparr>,
         \<lparr>children = 3, key = ''c'', parent = Some 4, Value = Some 2\<rparr>,
         \<lparr>children = 4, key = ''b'', parent = Some 2, Value = None\<rparr>,
         \<lparr>children = 5, key = ''d'', parent = Some 4, Value = Some 3\<rparr>],
      cmaps = [[(CHR ''x'', 2)], [], [(CHR ''a'', 1), (CHR ''b'', 4)], [],
               [(CHR ''c'', 3), (CHR ''d'', 5)], []]\<rparr>"

definition tree_ab :: "nat heap" where
  "tree_ab =
     \<lparr>nodes =
        [\<lparr>children = 0, key = [], parent = None, Value = None\<rparr>,
         \<lparr>children = 1, key = ''b'', parent = Some 2, Value = Some 1\<rparr>,
         \<lparr>children = 2, key = ''a'', parent = Some 0, Value = None\<rparr>,
         \<lparr>children = 3, key = ''c'', parent = Some 2, Value = Some 2\<rparr>],
      cmaps = [[(CHR ''a'', 2)], [], [(CHR ''b'', 1), (CHR ''c'', 3)], []]\<rparr>"

definition tree_z :: "nat heap" where
  "tree_z =
     \<lparr>nodes =
        [\<lparr>children = 0, key = [], parent = None, Value = None\<rparr>,
         \<lparr>children = 1, key = ''z'', parent = Some 0, Value = Some 0\<rparr>,
         \<lparr>children = 2, key = ''b'', parent = Some 3, Value = Some 1\<rparr>,
         \<lparr>children = 3, key = ''a'', parent = Some 1, Value = None\<rparr>,
         \<lparr>children = 4, key = ''c'', parent = Some 3, Value = Some 2\<rparr>,
         \<lparr>children = 5, key = ''d'', parent = Some 6, Value = Some 3\<rparr>,
         \<lparr>children = 6, key = ''c'', parent = Some 8, Value = None\<rparr>,
         \<lparr>children = 7, key = ''e'', parent = Some 6, Value = Some 4\<rparr>,
         \<lparr>children = 8, key = ''b'', parent = Some 1, Value = None\<rparr>,
         \<lparr>children = 9, key = ''f'', parent = Some 8, Value = Some 5\<rparr>],
      cmaps =
        [[(CHR ''z'', 1)], [(CHR ''a'', 3), (CHR ''b'', 8)], [],
         [(CHR ''b'', 2), (CHR ''c'', 4)], [], [],
         [(CHR ''d'', 5), (CHR ''e'', 7)], [],
         [(CHR ''c'', 6), (CHR ''f'', 9)], []]\<rparr>"

text \<open>The tree of ab and ac after Remove of ac.\<close>

definition tree_ab_less :: "nat heap" where
  "tree_ab_less =
     \<lparr>nodes =
        [\<lparr>children = 0, key = [], parent = None, Value = None\<rparr>,
         \<lparr>children = 1, key = ''b'', parent = Some 2, Value = Some 1\<rparr>,
         \<lparr>children = 2, key = ''a'', parent = Some 0, Value = None\<rparr>,
         \<lparr>children = 3, key = ''c'', parent = Some 2, Value = Some 2\<rparr>],
      cmaps = [[(CHR ''a'', 2)], [], [(CHR ''b'', 1)], []]\<rparr>"

definition tree_abc :: "nat heap" where
  "tree_abc =
     \<lparr>nodes =
        [\<lparr>children = 0, key = [], parent = None, Value = None\<rparr>,
         \<lparr>children = 1, key = ''a'', parent = Some 0, Value = Some 1\<rparr>,
         \<lparr>children = 2, key = ''b'', parent = Some 1, Value = Some 2\<rparr>,
         \<lparr>children = 3, key = ''c'', parent = Some 2, Value = Some 3\<rparr>],
      cmaps = [[(CHR ''a'', 1)], [(CHR ''b'', 2)], [(CHR ''c'', 3)], []]\<rparr>"

definition tree_abc_less :: "nat heap" where
  "tree_abc_less =
     \<lparr>nodes =
        [\<lparr>children = 0, key = [], parent = None, Value = None\<rparr>,
         \<lparr>children = 2, key = ''ab'', parent = Some 0, Value = Some 2\<rparr>,
         \<lparr>children = 2, key = ''b'', parent = Some 1, Value = Some 2\<rparr>,
         \<lparr>children = 3, key = ''c'', parent = Some 2, Value = Some 3\<rparr>],
      cmaps = [[(CHR ''a'', 1)], [(CHR ''b'', 2)], [(CHR ''c'', 3)], []]\<rparr>"

definition tree_a3 :: "nat heap" where
  "tree_a3 =
     \<lparr>nodes =
        [\<lparr>children = 0, key = [], parent = None, Value = None\<rparr>,
         \<lparr>children = 1, key = ''a'', parent = Some 0, Value = Some 1\<rparr>,
         \<lparr>children = 2, key = ''b'', parent = Some 1, Value = Some 2\<rparr>,
         \<lparr>children = 3, key = ''c'', parent = Some 1, Value = Some 3\<rparr>],
      cmaps = [[(CHR ''a'', 1)], [(CHR ''b'', 2), (CHR ''c'', 3)], [], []]\<rparr>"

definition tree_ts :: "string heap" where
  "tree_ts =
     \<lparr>nodes =
        [\<lparr>children = 0, key = [], parent = None, Value = None\<rparr>,
         \<lparr>children = 1, key = ''test'', parent = Some 0, Value = Some ''aa''\<rparr>,
         \<lparr>children = 2, key = ''slow'', parent = Some 0, Value = Some ''bb''\<rparr>],
      cmaps = [[(CHR ''t'', 1), (CHR ''s'', 2)], [], []]\<rparr>"

text \<open>The tree of a, ab and ac after Remove of a.\<close>

definition tree_a3_less :: "nat heap" where
  "tree_a3_less =
     \<lparr>nodes =
        [\<lparr>children = 0, key = [], parent = None, Value = None\<rparr>,
         \<lparr>children = 1, key = ''a'', parent = Some 0, Value = None\<rparr>,
         \<lparr>children = 2, key = ''b'', parent = Some 1, Value = Some 2\<rparr>,
         \<lparr>children = 3, key = ''c'', parent = Some 1, Value = Some 3\<rparr>],
      cmaps = [[(CHR ''a'', 1)], [(CHR ''b'', 2), (CHR ''c'', 3)], [], []]\<rparr>"

text \<open>The tree of test, tester, team and te, the example of a split in the specification.\<close>

definition tree_split :: "nat heap" where
  "tree_split =
     \<lparr>nodes =
        [\<lparr>children = 0, key = [], parent = None, Value = None\<rparr>,
         \<lparr>children = 1, key = ''st'', parent = Some 3, Value = Some 1\<rparr>,
         \<lparr>children = 2, key = ''er'', parent = Some 1, Value = Some 2\<rparr>,
         \<lparr>children = 3, key = ''te'', parent = Some 0, Value = Some 4\<rparr>,
         \<lparr>children = 4, key = ''am'', parent = Some 3, Value = Some 3\<rparr>],
      cmaps = [[(CHR ''t'', 3)], [(CHR ''e'', 2)], [], [(CHR ''s'', 1), (CHR ''a'', 4)], []]\<rparr>"

text \<open>
  The tree of a, ab, abcd and abce; the same after Remove of a; and that after a further
  insert of ab with the value 9.
\<close>

definition tree_abcde :: "nat heap" where
  "tree_abcde =
     \<lparr>nodes =
        [\<lparr>children = 0, key = [], parent = None, Value = None\<rparr>,
         \<lparr>children = 1, key = ''a'', parent = Some 0, Value = Some 1\<rparr>,
         \<lparr>children = 2, key = ''b'', parent = Some 1, Value = Some 2\<rparr>,
         \<lparr>children = 3, key = ''d'', parent = Some 4, Value = Some 3\<rparr>,
         \<lparr>children = 4, key = ''c'', parent = Some 2, Value = None\<rparr>,
         \<lparr>children = 5, key = ''e'', parent = Some 4, Value = Some 4\<rparr>],
      cmaps =
        [[(CHR ''a'', 1)], [(CHR ''b'', 2)], [(CHR ''c'', 4)], [],
         [(CHR ''d'', 3), (CHR ''e'', 5)], []]\<rparr>"

definition tree_abcde_less :: "nat heap" where
  "tree_abcde_less =
     \<lparr>nodes =
        [\<lparr>children = 0, key = [], parent = None, Value = None\<rparr>,
         \<lparr>children = 2, key = ''ab'', parent = Some 0, Value = Some 2\<rparr>,
         \<lparr>children = 2, key = ''b'', parent = Some 1, Value = Some 2\<rparr>,
         \<lparr>children = 3, key = ''d'', parent = Some 4, Value = Some 3\<rparr>,
         \<lparr>children = 4, key = ''c'', parent = Some 2, Value = None\<rparr>,
         \<lparr>children = 5, key = ''e'', parent = Some 4, Value = Some 4\<rparr>],
      cmaps =
        [[(CHR ''a'', 1)], [(CHR ''b'', 2)], [(CHR ''c'', 4)], [],
         [(CHR ''d'', 3), (CHR ''e'', 5)], []]\<rparr>"

definition tree_abcde_stale :: "nat heap" where
  "tree_abcde_stale =
     \<lparr>nodes =
        [\<lparr>children = 0, key = [], parent = None, Value = None\<rparr>,
         \<lparr>children = 2, key = ''ab'', parent = Some 0, Value = Some 9\<rparr>,
         \<lparr>children = 2, key = ''b'', parent = Some 1, Value = Some 2\<rparr>,
         \<lparr>children = 3, key = ''d'', parent = Some 4, Value = Some 3\<rparr>,
         \<lparr>children = 4, key = ''c'', parent = Some 2, Value = None\<rparr>,
         \<lparr>children = 5, key = ''e'', parent = Some 4, Value = Some 4\<rparr>],
      cmaps =
        [[(CHR ''a'', 1)], [(CHR ''b'', 2)], [(CHR ''c'', 4)], [],
         [(CHR ''d'', 3), (CHR ''e'', 5)], []]\<rparr>"

text \<open>\<open>r.Remove(k).Value\<close>, as the test TestRemove reads it (nil has no Value to read).\<close>

definition Remove_Value :: "nat \<Rightarrow> 'v heap \<Rightarrow> addr \<Rightarrow> string \<Rightarrow> error + 'v option" where
  "Remove_Value n h r k =
     (case Remove n h r k of
        Inl e \<Rightarrow> Inl e
      | Inr (h', None) \<Rightarrow> Inl NilDeref
      | Inr (h', Some c) \<Rightarrow> Inr (Value (node h' c)))"


section \<open>Lemmas\<close>

subsection \<open>longestCommonPrefix\<close>

lemma common_len_le: "common_len a b \<le> length a \<and> common_len a b \<le> length b"
  by (induction a b rule: common_len.induct) auto

lemma common_len_prefix: "take (length b) a = b \<Longrightarrow> common_len a b = length b"
  by (induction a b rule: common_len.induct) auto

lemma common_len_full: "common_len a b = length b \<Longrightarrow> take (length b) a = b"
  by (induction a b rule: common_len.induct) (auto split: if_splits)

text \<open>
  The test \<open>commonPrefix == child.key\<close> of the source says that the child's fragment is a
  prefix of the key, and then \<open>prefixEnd\<close> is the fragment's length.
\<close>

lemma lcp_eq_iff:
  assumes "k \<noteq> []" "longestCommonPrefix k kc = (cp, pe)"
  shows "(kc = cp) = (take (length kc) k = kc)" and "kc = cp \<Longrightarrow> pe = length kc"
proof -
  show "(kc = cp) = (take (length kc) k = kc)"
  proof (cases "kc = []")
    case True
    then show ?thesis using assms by (simp add: longestCommonPrefix_def)
  next
    case False
    then have cp: "cp = take (common_len k kc) k" and pe: "pe = common_len k kc"
      using assms by (auto simp: longestCommonPrefix_def Let_def)
    show ?thesis
    proof
      assume "kc = cp"
      then have "kc = take (common_len k kc) k" using cp by (rule trans)
      then have "length kc = length (take (common_len k kc) k)" by (rule arg_cong)
      then have "common_len k kc = length kc" using common_len_le[of k kc] by simp
      then show "take (length kc) k = kc" by (rule common_len_full)
    next
      assume a: "take (length kc) k = kc"
      then have "common_len k kc = length kc" by (rule common_len_prefix)
      then show "kc = cp" using cp a by simp
    qed
  qed
  show "kc = cp \<Longrightarrow> pe = length kc"
  proof (cases "kc = []")
    case True
    then show "pe = length kc" using assms by (simp add: longestCommonPrefix_def)
  next
    case False
    assume e: "kc = cp"
    from False have cp: "cp = take (common_len k kc) k" and pe: "pe = common_len k kc"
      using assms by (auto simp: longestCommonPrefix_def Let_def)
    from e have "kc = take (common_len k kc) k" using cp by (rule trans)
    then have "length kc = length (take (common_len k kc) k)" by (rule arg_cong)
    then show "pe = length kc" using common_len_le[of k kc] pe by simp
  qed
qed

subsection \<open>The upward loop of find\<close>

lemma find_up_chain:
  "chain N h a = Some as \<Longrightarrow> N \<le> n \<Longrightarrow> find_up n h a = Inr (List.find (has_value h) as)"
proof (induction N arbitrary: a as n)
  case 0
  then show ?case by simp
next
  case (Suc N)
  then obtain n' where n: "n = Suc n'" and le: "N \<le> n'" by (cases n) auto
  show ?case
  proof (cases "parent (node h a)")
    case None
    then show ?thesis using Suc.prems n by (auto simp: has_value_def)
  next
    case (Some p)
    then obtain as' where as': "chain N h p = Some as'" and as: "as = a # as'"
      using Suc.prems by auto
    from Suc.IH[OF as' le] show ?thesis using Some n as by (auto simp: has_value_def)
  qed
qed

lemma chain_hd: "chain N h a = Some as \<Longrightarrow> \<exists>as'. as = a # as'"
  by (cases N) (auto split: option.splits)

lemma find_back_chain:
  assumes "chain N h a = Some as" "N \<le> n"
  shows "find_back n h a = Inr (List.find (has_value h) as, False)"
proof (cases "has_value h a")
  case True
  moreover obtain as' where "as = a # as'" using chain_hd[OF assms(1)] by auto
  ultimately show ?thesis by (simp add: find_back_def has_value_def)
next
  case False
  then show ?thesis using find_up_chain[OF assms] by (simp add: find_back_def has_value_def)
qed

subsection \<open>find follows the descent\<close>

lemma find_r_descend:
  "descend m h r k = Inr (t, ex) \<Longrightarrow> k \<noteq> [] \<Longrightarrow> chain N h t = Some as \<Longrightarrow> m + N \<le> n \<Longrightarrow>
   find_r n h r k =
     Inr (if ex \<and> has_value h t then (Some t, True) else (List.find (has_value h) as, False))"
proof (induction m arbitrary: r k n)
  case 0
  then show ?case by (cases k) auto
next
  case (Suc m)
  from Suc.prems(2) obtain k0 ks where k: "k = k0 # ks" by (cases k) auto
  from Suc.prems(4) obtain n' where n: "n = Suc n'" and le: "m + N \<le> n'" by (cases n) auto
  have Nn: "N \<le> Suc n'" using le by simp
  have fu: "find_up (Suc n') h t = Inr (List.find (has_value h) as)"
    using find_up_chain[OF Suc.prems(3) Nn] .
  have fb: "find_back (Suc n') h t = Inr (List.find (has_value h) as, False)"
    using find_back_chain[OF Suc.prems(3) Nn] .
  show ?case
  proof (cases "child_at h r k0")
    case None
    then have "t = r" "\<not> ex" using Suc.prems(1) k by auto
    then show ?thesis using None k n fb by simp
  next
    case (Some c)
    show ?thesis
    proof (cases "key (node h c) = k0 # ks")
      case True
      then have t: "t = c" "ex" using Suc.prems(1) k Some by auto
      show ?thesis
      proof (cases "has_value h c")
        case True
        then show ?thesis
          using t k n Some \<open>key (node h c) = k0 # ks\<close> by (simp add: has_value_def)
      next
        case False
        then show ?thesis
          using t k n Some \<open>key (node h c) = k0 # ks\<close> fu
          by (simp add: has_value_def del: find_up.simps)
      qed
    next
      case False
      then have False: "k \<noteq> key (node h c)" using k by auto
      obtain cp pe where l: "longestCommonPrefix k (key (node h c)) = (cp, pe)"
        by (cases "longestCommonPrefix k (key (node h c))") auto
      note iff = lcp_eq_iff[OF Suc.prems(2) l]
      show ?thesis
      proof (cases "key (node h c) = cp")
        case True
        then have pre: "take (length (key (node h c))) k = key (node h c)" using iff(1) by simp
        have pe: "pe = length (key (node h c))" using iff(2) True by simp
        have d: "descend m h c (drop pe k) = Inr (t, ex)"
          using Suc.prems(1) k Some False pre pe by auto
        have ne: "drop pe k \<noteq> []"
        proof
          assume "drop pe k = []"
          then have "length k \<le> length (key (node h c))" using pe by simp
          then have "take (length (key (node h c))) k = k" by simp
          then show False using pre False by simp
        qed
        from Suc.IH[OF d ne Suc.prems(3) le]
        show ?thesis using k n Some False l True by simp
      next
        case F2: False
        then have npre: "take (length (key (node h c))) k \<noteq> key (node h c)" using iff(1) by simp
        then have "t = r" "\<not> ex" using Suc.prems(1) k Some False by auto
        then show ?thesis
          using k n Some False l F2 fb by simp
      qed
    qed
  qed
qed

subsection \<open>The descent ends\<close>

lemma heap_ok_child:
  assumes "heap_ok h" "r < length (nodes h)" "child_at h r b = Some c"
  shows "c < length (nodes h)" and "key (node h c) \<noteq> []"
proof -
  have "nodes h ! r \<in> set (nodes h)" using assms(2) by simp
  then have "children (node h r) < length (cmaps h)"
    using assms(1) by (auto simp: heap_ok_def node_def)
  then have "kids h r \<in> set (cmaps h)" by (simp add: kids_def cmap_def)
  moreover have "(b, c) \<in> set (kids h r)"
    using assms(3) by (auto simp: child_at_def dest: map_of_SomeD)
  ultimately show "c < length (nodes h)" and "key (node h c) \<noteq> []"
    using assms(1) by (auto simp: heap_ok_def)
qed

lemma descend_total:
  "heap_ok h \<Longrightarrow> r < length (nodes h) \<Longrightarrow> length k \<le> m \<Longrightarrow>
   \<exists>t ex. descend m h r k = Inr (t, ex) \<and> t < length (nodes h)"
proof (induction m arbitrary: r k)
  case 0
  then show ?case by auto
next
  case (Suc m)
  show ?case
  proof (cases k)
    case Nil
    then show ?thesis using Suc.prems by auto
  next
    case (Cons k0 ks)
    show ?thesis
    proof (cases "child_at h r k0")
      case None
      then show ?thesis using Cons Suc.prems by auto
    next
      case (Some c)
      note c = heap_ok_child[OF Suc.prems(1,2) Some]
      have "length (drop (length (key (node h c))) k) \<le> m"
        using c(2) Suc.prems(3) Cons by (cases "key (node h c)") auto
      from Suc.IH[OF Suc.prems(1) c(1) this]
      show ?thesis using Cons Some c(1) Suc.prems(2) by auto
    qed
  qed
qed

subsection \<open>Assignments to one node\<close>

lemma node_set_node:
  "node (set_node h a x) b = (if b = a \<and> a < length (nodes h) then x else node h b)"
  by (cases "a < length (nodes h)") (auto simp: node_def set_node_def list_update_beyond not_less)

lemma length_nodes_set_node [simp]: "length (nodes (set_node h a x)) = length (nodes h)"
  by (simp add: set_node_def)

lemma cmaps_set_node [simp]: "cmaps (set_node h a x) = cmaps h"
  by (simp add: set_node_def)

lemma nodes_set_cmap [simp]: "nodes (set_cmap h m al) = nodes h"
  by (simp add: set_cmap_def)

lemma node_set_cmap [simp]: "node (set_cmap h m al) a = node h a"
  by (simp add: node_def)

lemma node_delete_child [simp]: "node (delete_child h r b) a = node h a"
  by (simp add: delete_child_def)

lemma node_set_key:
  "node (set_key h a k) b =
     (if b = a \<and> a < length (nodes h) then (node h a)\<lparr>key := k\<rparr> else node h b)"
  by (simp add: set_key_def node_set_node)

lemma node_set_Value:
  "node (set_Value h a v) b =
     (if b = a \<and> a < length (nodes h) then (node h a)\<lparr>Value := v\<rparr> else node h b)"
  by (simp add: set_Value_def node_set_node)

lemma node_set_parent:
  "node (set_parent h a p) b =
     (if b = a \<and> a < length (nodes h) then (node h a)\<lparr>parent := p\<rparr> else node h b)"
  by (simp add: set_parent_def node_set_node)

lemma node_set_children:
  "node (set_children h a m) b =
     (if b = a \<and> a < length (nodes h) then (node h a)\<lparr>children := m\<rparr> else node h b)"
  by (simp add: set_children_def node_set_node)

lemma length_nodes_setters [simp]:
  "length (nodes (set_key h a k)) = length (nodes h)"
  "length (nodes (set_Value h a v)) = length (nodes h)"
  "length (nodes (set_parent h a p)) = length (nodes h)"
  "length (nodes (set_children h a m)) = length (nodes h)"
  by (simp_all add: set_key_def set_Value_def set_parent_def set_children_def)

lemma cmaps_setters [simp]:
  "cmaps (set_key h a k) = cmaps h"
  "cmaps (set_Value h a v) = cmaps h"
  "cmaps (set_parent h a p) = cmaps h"
  "cmaps (set_children h a m) = cmaps h"
  by (simp_all add: set_key_def set_Value_def set_parent_def set_children_def)

lemma Value_set_Value:
  "c < length (nodes h) \<Longrightarrow> Value (node (set_Value h c v) c) = v"
  by (simp add: node_set_Value)

lemma Value_collapse:
  "c < length (nodes h) \<Longrightarrow> Value (node (collapse h p c s) c) = Value (node h s)"
  by (simp add: collapse_def Let_def node_set_key node_set_Value node_set_children
      node_set_parent)

subsection \<open>Remove follows the descent\<close>

lemma descend_valid:
  "heap_ok h \<Longrightarrow> r < length (nodes h) \<Longrightarrow> descend m h r k = Inr (t, ex) \<Longrightarrow>
   t < length (nodes h)"
proof (induction m arbitrary: r k)
  case 0
  then show ?case by (cases k) auto
next
  case (Suc m)
  show ?case
  proof (cases k)
    case Nil
    then show ?thesis using Suc.prems by auto
  next
    case (Cons k0 ks)
    show ?thesis
    proof (cases "child_at h r k0")
      case None
      then show ?thesis using Cons Suc.prems by auto
    next
      case (Some c)
      note c = heap_ok_child[OF Suc.prems(1,2) Some]
      show ?thesis using Suc.prems(3) Cons Some c(1) Suc.prems(2) Suc.IH[OF Suc.prems(1) c(1)]
        by (auto split: if_splits)
    qed
  qed
qed

lemma Remove_descend:
  "descend m h r k = Inr (t, ex) \<Longrightarrow> k \<noteq> [] \<Longrightarrow> m \<le> n \<Longrightarrow>
   (if ex
    then \<exists>p b. child_at h p b = Some t \<and>
           Remove n h r k =
             Inr (case kids h t of
                    [] \<Rightarrow> delete_child h p b
                  | [(x, s)] \<Rightarrow> collapse h p t s
                  | _ \<Rightarrow> set_Value h t None, Some t)
    else Remove n h r k = Inr (h, None))"
proof (induction m arbitrary: r k n)
  case 0
  then show ?case by (cases k) auto
next
  case (Suc m)
  from Suc.prems(2) obtain k0 ks where k: "k = k0 # ks" by (cases k) auto
  from Suc.prems(3) obtain n' where n: "n = Suc n'" and le: "m \<le> n'" by (cases n) auto
  show ?case
  proof (cases "child_at h r k0")
    case None
    then have "t = r" "\<not> ex" using Suc.prems(1) k by auto
    then show ?thesis using None k n by simp
  next
    case (Some c)
    show ?thesis
    proof (cases "key (node h c) = k0 # ks")
      case True
      then have t: "t = c" "ex" using Suc.prems(1) k Some by auto
      have "Remove n h r k =
             Inr (case kids h c of
                    [] \<Rightarrow> delete_child h r k0
                  | [(x, s)] \<Rightarrow> collapse h r c s
                  | _ \<Rightarrow> set_Value h c None, Some c)"
        using k n Some True by (auto split: list.splits)
      then show ?thesis using t Some by auto
    next
      case False
      then have False: "k \<noteq> key (node h c)" using k by auto
      obtain cp pe where l: "longestCommonPrefix k (key (node h c)) = (cp, pe)"
        by (cases "longestCommonPrefix k (key (node h c))") auto
      note iff = lcp_eq_iff[OF Suc.prems(2) l]
      show ?thesis
      proof (cases "key (node h c) = cp")
        case True
        then have pre: "take (length (key (node h c))) k = key (node h c)" using iff(1) by simp
        have pe: "pe = length (key (node h c))" using iff(2) True by simp
        have d: "descend m h c (drop pe k) = Inr (t, ex)"
          using Suc.prems(1) k Some False pre pe by auto
        have ne: "drop pe k \<noteq> []"
        proof
          assume "drop pe k = []"
          then have "length k \<le> length (key (node h c))" using pe by simp
          then have "take (length (key (node h c))) k = k" by simp
          then show False using pre False by simp
        qed
        have "Remove n h r k = Remove n' h c (drop pe k)"
          using k n Some False l True by simp
        with Suc.IH[OF d ne le] show ?thesis by simp
      next
        case F2: False
        then have npre: "take (length (key (node h c))) k \<noteq> key (node h c)" using iff(1) by simp
        then have "t = r" "\<not> ex" using Suc.prems(1) k Some False by auto
        then show ?thesis
          using k n Some False l F2 by simp
      qed
    qed
  qed
qed

lemma descend_exact_nonempty: "descend m h r k = Inr (t, True) \<Longrightarrow> k \<noteq> []"
  by (cases k) auto

subsection \<open>Len and the nodes below a node\<close>

lemma fold_Inl_Len:
  "fold (\<lambda>(b, child) acc.
           case acc of
             Inl e \<Rightarrow> Inl e
           | Inr i \<Rightarrow> (case f child of Inl e \<Rightarrow> Inl e | Inr j \<Rightarrow> Inr (g i j)))
        al (Inl e) = Inl e"
  by (induction al) auto

lemma Len_fold:
  assumes IH: "\<And>c ys. reach n h c = Inr ys \<Longrightarrow> Len n h (Some c) = Inr (count_values h ys)"
  shows "fold (\<lambda>(b, child) acc.
                 case acc of
                   Inl e \<Rightarrow> Inl e
                 | Inr xs \<Rightarrow> (case reach n h child of
                                Inl e \<Rightarrow> Inl e
                              | Inr ys \<Rightarrow> Inr (xs @ ys)))
              al (Inr xs0) = Inr xs \<Longrightarrow>
         fold (\<lambda>(b, child) acc.
                 case acc of
                   Inl e \<Rightarrow> Inl e
                 | Inr i \<Rightarrow> (case Len n h (Some child) of
                               Inl e \<Rightarrow> Inl e
                             | Inr j \<Rightarrow> Inr (i + j)))
              al (Inr (count_values h xs0)) = Inr (count_values h xs)"
proof (induction al arbitrary: xs0)
  case Nil
  then show ?case by simp
next
  case (Cons p al)
  obtain b c where p: "p = (b, c)" by (cases p) auto
  show ?case
  proof (cases "reach n h c")
    case (Inl e)
    then show ?thesis using Cons.prems p by (simp add: fold_Inl_Len)
  next
    case (Inr ys)
    have "count_values h xs0 + count_values h ys = count_values h (xs0 @ ys)"
      by (simp add: count_values_def)
    then show ?thesis using Cons.prems p Inr IH[OF Inr] Cons.IH[of "xs0 @ ys"] by simp
  qed
qed

lemma Len_reach:
  "reach n h r = Inr xs \<Longrightarrow> Len n h (Some r) = Inr (count_values h xs)"
proof (induction n arbitrary: r xs)
  case 0
  then show ?case by simp
next
  case (Suc n)
  have "count_values h [r] = (if Value (node h r) \<noteq> None then 1 else 0)"
    by (simp add: count_values_def has_value_def)
  then show ?case using Len_fold[of n h "kids h r" "[r]" xs, OF Suc.IH] Suc.prems by simp
qed

lemma reach_fold:
  "fold (\<lambda>(b, child) acc.
           case acc of
             Inl e \<Rightarrow> Inl e
           | Inr xs \<Rightarrow> (case reach n h child of
                          Inl e \<Rightarrow> Inl e
                        | Inr ys \<Rightarrow> Inr (xs @ ys)))
        al (Inr xs0) = Inr xs \<Longrightarrow>
   set xs0 \<subseteq> set xs \<and>
   (\<forall>(b, c) \<in> set al. \<exists>ys. reach n h c = Inr ys \<and> set ys \<subseteq> set xs)"
proof (induction al arbitrary: xs0)
  case Nil
  then show ?case by simp
next
  case (Cons p al)
  obtain b c where p: "p = (b, c)" by (cases p) auto
  show ?case
  proof (cases "reach n h c")
    case (Inl e)
    then show ?thesis using Cons.prems p by (simp add: fold_Inl_Len)
  next
    case (Inr ys)
    then have "fold (\<lambda>(b, child) acc.
           case acc of
             Inl e \<Rightarrow> Inl e
           | Inr xs \<Rightarrow> (case reach n h child of
                          Inl e \<Rightarrow> Inl e
                        | Inr ys \<Rightarrow> Inr (xs @ ys)))
        al (Inr (xs0 @ ys)) = Inr xs" using Cons.prems p by simp
    from Cons.IH[OF this] show ?thesis using p Inr by auto
  qed
qed

lemma reach_self: "reach n h r = Inr xs \<Longrightarrow> r \<in> set xs"
  by (cases n) (auto dest: reach_fold)

lemma reach_child:
  assumes "reach (Suc n) h r = Inr xs" "child_at h r b = Some c"
  shows "\<exists>ys. reach n h c = Inr ys \<and> set ys \<subseteq> set xs"
proof -
  have "(b, c) \<in> set (kids h r)" using assms(2) by (auto simp: child_at_def dest: map_of_SomeD)
  then show ?thesis using reach_fold[of n h "kids h r" "[r]" xs] assms(1) by auto
qed

lemma descend_in_reach:
  "descend m h r k = Inr (c, True) \<Longrightarrow> reach n h r = Inr xs \<Longrightarrow> c \<in> set xs"
proof (induction m arbitrary: r k n xs)
  case 0
  then show ?case by (cases k) auto
next
  case (Suc m)
  obtain k0 ks where k: "k = k0 # ks" using Suc.prems(1) by (cases k) auto
  obtain n' where n: "n = Suc n'" using Suc.prems(2) by (cases n) auto
  show ?case
  proof (cases "child_at h r k0")
    case None
    then show ?thesis using Suc.prems(1) k by simp
  next
    case (Some c')
    obtain ys where ys: "reach n' h c' = Inr ys" "set ys \<subseteq> set xs"
      using reach_child[OF _ Some] Suc.prems(2) n by blast
    show ?thesis
    proof (cases "key (node h c') = k0 # ks")
      case True
      then have "c = c'" using Suc.prems(1) k Some by auto
      then show ?thesis using reach_self[OF ys(1)] ys(2) by auto
    next
      case False
      then have "descend m h c' (drop (length (key (node h c'))) k) = Inr (c, True)"
        using Suc.prems(1) k Some by (auto split: if_splits)
      from Suc.IH[OF this ys(1)] show ?thesis using ys(2) by auto
    qed
  qed
qed

lemma kids_set_Value [simp]: "kids (set_Value h c v) a = kids h a"
  by (simp add: kids_def cmap_def node_set_Value)

lemma reach_set_Value [simp]: "reach n (set_Value h c v) r = reach n h r"
  by (induction n arbitrary: r) simp_all

lemma has_value_set_Value_None:
  "c < length (nodes h) \<Longrightarrow> has_value (set_Value h c None) a = (has_value h a \<and> a \<noteq> c)"
  by (auto simp: has_value_def node_set_Value)

lemma filter_remove1_length:
  "distinct xs \<Longrightarrow> c \<in> set xs \<Longrightarrow> P c \<Longrightarrow>
   length (filter P xs) = Suc (length (filter (\<lambda>a. P a \<and> a \<noteq> c) xs))"
proof (induction xs)
  case Nil
  then show ?case by simp
next
  case (Cons x xs)
  show ?case
  proof (cases "x = c")
    case True
    then have "c \<notin> set xs" using Cons.prems by simp
    then have "filter (\<lambda>a. P a \<and> a \<noteq> c) xs = filter P xs"
      by (intro filter_cong) auto
    then show ?thesis using True Cons.prems by simp
  next
    case False
    then show ?thesis using Cons by auto
  qed
qed

subsection \<open>insert keeps the heaps it builds well formed\<close>

lemma wf_insI:
  assumes "length (cmaps h) = length (nodes h)" and "0 < length (nodes h)"
    and "parent (nodes h ! 0) = None" and "key (nodes h ! 0) = []" and "fk 0 = []"
    and "\<And>a. a < length (nodes h) \<Longrightarrow> children (nodes h ! a) = a"
    and "\<And>a. a < length (nodes h) \<Longrightarrow> distinct (map fst (cmaps h ! a))"
    and "\<And>a b c. a < length (nodes h) \<Longrightarrow> (b, c) \<in> set (cmaps h ! a) \<Longrightarrow>
          c < length (nodes h) \<and> key (nodes h ! c) \<noteq> [] \<and> hd (key (nodes h ! c)) = b \<and>
          parent (nodes h ! c) = Some a \<and> fk c = fk a @ key (nodes h ! c)"
    and "\<And>c. c < length (nodes h) \<Longrightarrow> c \<noteq> 0 \<Longrightarrow>
          \<exists>a < length (nodes h). parent (nodes h ! c) = Some a \<and>
               map_of (cmaps h ! a) (hd (key (nodes h ! c))) = Some c"
  shows "wf_ins h fk"
  unfolding wf_ins_def using assms by (intro conjI allI impI ballI) (auto simp del: map_of_eq_Some_iff)

lemma wf_len: "wf_ins h fk \<Longrightarrow> length (cmaps h) = length (nodes h)"
  and wf_pos: "wf_ins h fk \<Longrightarrow> 0 < length (nodes h)"
  and wf_root: "wf_ins h fk \<Longrightarrow> parent (nodes h ! 0) = None"
  and wf_key0: "wf_ins h fk \<Longrightarrow> key (nodes h ! 0) = []"
  and wf_fk0: "wf_ins h fk \<Longrightarrow> fk 0 = []"
  and wf_children: "wf_ins h fk \<Longrightarrow> a < length (nodes h) \<Longrightarrow> children (nodes h ! a) = a"
  and wf_distinct: "wf_ins h fk \<Longrightarrow> a < length (nodes h) \<Longrightarrow> distinct (map fst (cmaps h ! a))"
  by (auto simp: wf_ins_def)

lemma wf_entry:
  assumes "wf_ins h fk" "a < length (nodes h)" "(b, c) \<in> set (cmaps h ! a)"
  shows "c < length (nodes h)" "key (nodes h ! c) \<noteq> []" "hd (key (nodes h ! c)) = b"
    "parent (nodes h ! c) = Some a" "fk c = fk a @ key (nodes h ! c)"
  using assms unfolding wf_ins_def by blast+

lemma wf_parent:
  assumes "wf_ins h fk" "c < length (nodes h)" "c \<noteq> 0"
  shows "\<exists>a < length (nodes h). parent (nodes h ! c) = Some a \<and>
               map_of (cmaps h ! a) (hd (key (nodes h ! c))) = Some c"
  using assms unfolding wf_ins_def by blast

lemma wf_kids: "wf_ins h fk \<Longrightarrow> a < length (nodes h) \<Longrightarrow> kids h a = cmaps h ! a"
  by (simp add: kids_def cmap_def node_def wf_children)

lemma set_update_cases:
  assumes "distinct (map fst al)" "(b, c) \<in> set (AList.update k v al)"
  shows "(b = k \<and> c = v) \<or> ((b, c) \<in> set al \<and> b \<noteq> k)"
proof -
  have "distinct (map fst (AList.update k v al))" using assms(1) by (simp add: distinct_update)
  then have "map_of (AList.update k v al) b = Some c" using assms(2) by simp
  then have "((map_of al)(k \<mapsto> v)) b = Some c" by (simp add: update_conv')
  then show ?thesis by (auto split: if_splits dest: map_of_SomeD)
qed

lemma nodes_alloc [simp]:
  "nodes (fst (alloc h k p v)) =
     nodes h @ [\<lparr>children = length (cmaps h), key = k, parent = p, Value = v\<rparr>]"
  and cmaps_alloc [simp]: "cmaps (fst (alloc h k p v)) = cmaps h @ [[]]"
  and snd_alloc [simp]: "snd (alloc h k p v) = length (nodes h)"
  by (simp_all add: alloc_def)

lemma nodes_put_child [simp]: "nodes (put_child h r b c) = nodes h"
  and cmaps_put_child:
    "cmaps (put_child h r b c) =
       (cmaps h)[children (nodes h ! r) := AList.update b c (cmaps h ! children (nodes h ! r))]"
  by (simp_all add: put_child_def set_cmap_def kids_def cmap_def node_def)

lemma nodes_set_key: "nodes (set_key h a k) = (nodes h)[a := (nodes h ! a)\<lparr>key := k\<rparr>]"
  and nodes_set_Value: "nodes (set_Value h a v) = (nodes h)[a := (nodes h ! a)\<lparr>Value := v\<rparr>]"
  and nodes_set_parent: "nodes (set_parent h a p) = (nodes h)[a := (nodes h ! a)\<lparr>parent := p\<rparr>]"
  by (simp_all add: set_key_def set_Value_def set_parent_def set_node_def node_def)

lemma key_upd_Value [simp]:
  "key (ns[c := (ns ! c)\<lparr>Value := v\<rparr>] ! a) = key (ns ! a)"
  by (cases "c < length ns") (auto simp: nth_list_update list_update_beyond not_less)

lemma parent_upd_Value [simp]:
  "parent (ns[c := (ns ! c)\<lparr>Value := v\<rparr>] ! a) = parent (ns ! a)"
  by (cases "c < length ns") (auto simp: nth_list_update list_update_beyond not_less)

lemma children_upd_Value [simp]:
  "children (ns[c := (ns ! c)\<lparr>Value := v\<rparr>] ! a) = children (ns ! a)"
  by (cases "c < length ns") (auto simp: nth_list_update list_update_beyond not_less)

lemma wf_ins_set_Value: "wf_ins h fk \<Longrightarrow> wf_ins (set_Value h c v) fk"
  unfolding wf_ins_def by (simp add: nodes_set_Value)

lemma wf_ins_leaf:
  assumes wf: "wf_ins h fk" and r: "r < length (nodes h)"
    and none: "map_of (cmaps h ! r) k0 = None"
  shows "wf_ins (put_child (fst (alloc h (k0 # ks) (Some r) v)) r k0 (length (nodes h)))
           (fk(length (nodes h) := fk r @ k0 # ks))"
proof -
  define N where "N = length (nodes h)"
  define h' where "h' = put_child (fst (alloc h (k0 # ks) (Some r) v)) r k0 N"
  have len: "length (cmaps h) = N" using wf_len[OF wf] N_def by simp
  have ns: "nodes h' = nodes h @ [\<lparr>children = N, key = k0 # ks, parent = Some r, Value = v\<rparr>]"
    by (simp add: h'_def len)
  have ms: "cmaps h' = (cmaps h)[r := AList.update k0 N (cmaps h ! r)] @ [[]]"
    using r len wf_children[OF wf r]
    by (simp add: h'_def cmaps_put_child nth_append N_def list_update_append)
  have "wf_ins h' (fk(N := fk r @ k0 # ks))"
  proof (rule wf_insI)
    show "length (cmaps h') = length (nodes h')" by (simp add: ns ms len N_def)
    show "0 < length (nodes h')" by (simp add: ns)
    show "parent (nodes h' ! 0) = None" using wf_pos[OF wf] wf_root[OF wf] by (simp add: ns nth_append)
    show "key (nodes h' ! 0) = []" using wf_pos[OF wf] wf_key0[OF wf] by (simp add: ns nth_append)
    show "(fk(N := fk r @ k0 # ks)) 0 = []" using wf_pos[OF wf] wf_fk0[OF wf] by (simp add: N_def)
  next
    fix a assume a: "a < length (nodes h')"
    show "children (nodes h' ! a) = a"
      using a wf_children[OF wf, of a] by (auto simp: ns nth_append N_def)
    show "distinct (map fst (cmaps h' ! a))"
      using a wf_distinct[OF wf, of a] len r
      by (auto simp: ns ms nth_append N_def nth_list_update distinct_update)
  next
    fix a b c assume a: "a < length (nodes h')" and bc: "(b, c) \<in> set (cmaps h' ! a)"
    have aN: "a < N" using a bc len by (cases "a = N") (auto simp: ns ms nth_append N_def)
    show "c < length (nodes h') \<and> key (nodes h' ! c) \<noteq> [] \<and> hd (key (nodes h' ! c)) = b \<and>
          parent (nodes h' ! c) = Some a \<and>
          (fk(N := fk r @ k0 # ks)) c = (fk(N := fk r @ k0 # ks)) a @ key (nodes h' ! c)"
    proof (cases "a = r \<and> b = k0 \<and> c = N")
      case True
      then show ?thesis using r by (simp add: ns N_def)
    next
      case False
      then have "(b, c) \<in> set (cmaps h ! a)"
        using bc aN len r set_update_cases[OF wf_distinct[OF wf r], of b c k0 N]
        by (auto simp: ms nth_append N_def nth_list_update split: if_splits)
      from wf_entry[OF wf _ this] aN show ?thesis by (auto simp: ns nth_append N_def)
    qed
  next
    fix c assume c: "c < length (nodes h')" and c0: "c \<noteq> 0"
    show "\<exists>a < length (nodes h'). parent (nodes h' ! c) = Some a \<and>
               map_of (cmaps h' ! a) (hd (key (nodes h' ! c))) = Some c"
    proof (cases "c = N")
      case True
      then show ?thesis using r len
        by (intro exI[of _ r]) (auto simp: ns ms nth_append N_def update_conv')
    next
      case False
      then have cN: "c < N" using c by (simp add: ns N_def)
      from wf_parent[OF wf _ c0] cN obtain a where a: "a < N" "parent (nodes h ! c) = Some a"
        "map_of (cmaps h ! a) (hd (key (nodes h ! c))) = Some c" by (auto simp: N_def)
      have "hd (key (nodes h ! c)) \<noteq> k0" if "a = r" using a(3) none that by auto
      then show ?thesis using a cN len r
        by (intro exI[of _ a]) (auto simp: ns ms nth_append N_def nth_list_update update_conv')
    qed
  qed
  then show ?thesis unfolding h'_def N_def .
qed


lemma wf_ins_split:
  assumes wf: "wf_ins h fk" and r: "r < length (nodes h)"
    and ch: "map_of (cmaps h ! r) k0 = Some child"
    and pe: "0 < pe" "pe < length (key (nodes h ! child))"
    and ns: "nodes h5 =
       (nodes h)[child := (nodes h ! child)\<lparr>key := drop pe (key (nodes h ! child)),
                                             parent := Some (length (nodes h))\<rparr>] @
       [\<lparr>children = length (nodes h), key = take pe (key (nodes h ! child)),
         parent = Some r, Value = None\<rparr>]"
    and ms: "cmaps h5 =
       (cmaps h)[r := AList.update k0 (length (nodes h)) (cmaps h ! r)] @
       [[(hd (drop pe (key (nodes h ! child))), child)]]"
  shows "wf_ins h5 (fk(length (nodes h) := fk r @ take pe (key (nodes h ! child))))"
proof -
  define N where "N = length (nodes h)"
  define kc where "kc = key (nodes h ! child)"
  define fk' where "fk' = fk(N := fk r @ take pe kc)"
  have len: "length (cmaps h) = N" using wf_len[OF wf] N_def by simp
  have rN: "r < N" using r N_def by simp
  have e: "(k0, child) \<in> set (cmaps h ! r)" using ch by (rule map_of_SomeD)
  note ce = wf_entry[OF wf r e]
  have cN: "child < N" using ce(1) N_def by simp
  have kc_ne: "kc \<noteq> []" and hd_kc: "hd kc = k0" and pc: "parent (nodes h ! child) = Some r"
    and fkc: "fk child = fk r @ kc" using ce kc_def by auto
  have c_r: "child \<noteq> r" using fkc kc_ne by auto
  have c_0: "child \<noteq> 0" using pc wf_root[OF wf] by (cases "child = 0") simp_all
  have pe': "0 < pe" "pe < length kc" using pe kc_def by auto
  have tk: "take pe kc \<noteq> []" and dk: "drop pe kc \<noteq> []" using pe' by auto
  have hd_tk: "hd (take pe kc) = k0" using pe' hd_kc by (cases kc) (auto simp: take_Suc_conv_app_nth hd_conv_nth)
  have ns': "nodes h5 = (nodes h)[child := (nodes h ! child)\<lparr>key := drop pe kc, parent := Some N\<rparr>] @
       [\<lparr>children = N, key = take pe kc, parent = Some r, Value = None\<rparr>]"
    using ns by (simp add: N_def kc_def)
  have ms': "cmaps h5 = (cmaps h)[r := AList.update k0 N (cmaps h ! r)] @ [[(hd (drop pe kc), child)]]"
    using ms by (simp add: N_def kc_def)
  have lenN: "length (nodes h5) = Suc N" by (simp add: ns' N_def)
  have node_old: "nodes h5 ! a = nodes h ! a" if "a < N" "a \<noteq> child" for a
    using that by (simp add: ns' nth_append N_def)
  have node_child: "nodes h5 ! child = (nodes h ! child)\<lparr>key := drop pe kc, parent := Some N\<rparr>"
    using cN by (simp add: ns' nth_append N_def)
  have node_N: "nodes h5 ! N = \<lparr>children = N, key = take pe kc, parent = Some r, Value = None\<rparr>"
    by (simp add: ns' nth_append N_def)
  have map_old: "cmaps h5 ! a = cmaps h ! a" if "a < N" "a \<noteq> r" for a
    using that len by (simp add: ms' nth_append)
  have map_r: "cmaps h5 ! r = AList.update k0 N (cmaps h ! r)"
    using rN len by (simp add: ms' nth_append)
  have map_N: "cmaps h5 ! N = [(hd (drop pe kc), child)]"
    using len by (simp add: ms' nth_append)
  have fk'_old: "fk' a = fk a" if "a < N" for a using that by (simp add: fk'_def)
  have fk'_N: "fk' N = fk r @ take pe kc" by (simp add: fk'_def)
  have "wf_ins h5 fk'"
  proof (rule wf_insI)
    show "length (cmaps h5) = length (nodes h5)" by (simp add: ns' ms' len N_def)
    show "0 < length (nodes h5)" by (simp add: lenN)
    show "parent (nodes h5 ! 0) = None"
      using node_old[of 0] c_0 wf_pos[OF wf] wf_root[OF wf] by (simp add: N_def)
    show "key (nodes h5 ! 0) = []"
      using node_old[of 0] c_0 wf_pos[OF wf] wf_key0[OF wf] by (simp add: N_def)
    show "fk' 0 = []" using fk'_old[of 0] wf_pos[OF wf] wf_fk0[OF wf] by (simp add: N_def)
  next
    fix a assume a: "a < length (nodes h5)"
    then consider "a = N" | "a = child" | "a < N" "a \<noteq> child" using lenN by fastforce
    then show "children (nodes h5 ! a) = a"
    proof cases
      case 1 then show ?thesis by (simp add: node_N)
    next
      case 2 then show ?thesis using wf_children[OF wf, of child] cN by (simp add: node_child N_def)
    next
      case 3 then show ?thesis using wf_children[OF wf, of a] by (simp add: node_old N_def)
    qed
    from a consider "a = N" | "a = r" | "a < N" "a \<noteq> r" using lenN by fastforce
    then show "distinct (map fst (cmaps h5 ! a))"
    proof cases
      case 1 then show ?thesis by (simp add: map_N)
    next
      case 2 then show ?thesis using wf_distinct[OF wf r] by (simp add: map_r distinct_update)
    next
      case 3 then show ?thesis using wf_distinct[OF wf, of a] by (simp add: map_old N_def)
    qed
  next
    fix a b c assume a: "a < length (nodes h5)" and bc: "(b, c) \<in> set (cmaps h5 ! a)"
    from a consider "a = N" | "a = r" | "a < N" "a \<noteq> r" using lenN by fastforce
    then show "c < length (nodes h5) \<and> key (nodes h5 ! c) \<noteq> [] \<and> hd (key (nodes h5 ! c)) = b \<and>
          parent (nodes h5 ! c) = Some a \<and> fk' c = fk' a @ key (nodes h5 ! c)"
    proof cases
      case 1
      then have "b = hd (drop pe kc)" "c = child" using bc by (auto simp: map_N)
      then show ?thesis using 1 cN dk fkc by (simp add: lenN node_child fk'_old fk'_N)
    next
      case 2
      from set_update_cases[OF wf_distinct[OF wf r], of b c k0 N] bc 2
      consider "b = k0" "c = N" | "(b, c) \<in> set (cmaps h ! r)" "b \<noteq> k0" by (auto simp: map_r)
      then show ?thesis
      proof cases
        case 1
        then show ?thesis using 2 tk hd_tk rN by (simp add: lenN node_N fk'_N fk'_old)
      next
        case 2
        note old = wf_entry[OF wf r 2(1)]
        have "c \<noteq> child" using old(3) hd_kc 2(2) kc_def by auto
        then show ?thesis using old \<open>a = r\<close> rN by (simp add: lenN node_old fk'_old N_def)
      qed
    next
      case 3
      then have bc': "(b, c) \<in> set (cmaps h ! a)" using bc by (simp add: map_old)
      have aN: "a < length (nodes h)" using 3 by (simp add: N_def)
      note old = wf_entry[OF wf aN bc']
      have "c \<noteq> child" using old(4) pc 3 by auto
      then show ?thesis using old 3 by (simp add: lenN node_old fk'_old N_def)
    qed
  next
    fix c assume c: "c < length (nodes h5)" and c0: "c \<noteq> 0"
    from c consider "c = N" | "c = child" | "c < N" "c \<noteq> child" using lenN by fastforce
    then show "\<exists>a < length (nodes h5). parent (nodes h5 ! c) = Some a \<and>
               map_of (cmaps h5 ! a) (hd (key (nodes h5 ! c))) = Some c"
    proof cases
      case 1
      then show ?thesis using rN hd_tk
        by (intro exI[of _ r]) (simp add: lenN node_N map_r update_conv')
    next
      case 2
      then show ?thesis
        by (intro exI[of _ N]) (simp add: lenN node_child map_N)
    next
      case 3
      have cN': "c < length (nodes h)" using 3 by (simp add: N_def)
      from wf_parent[OF wf cN' c0] obtain a where a: "a < N" "parent (nodes h ! c) = Some a"
        "map_of (cmaps h ! a) (hd (key (nodes h ! c))) = Some c" by (auto simp: N_def)
      show ?thesis
      proof (cases "a = r")
        case True
        have "hd (key (nodes h ! c)) \<noteq> k0" using a(3) ch 3 True by auto
        then show ?thesis using a 3 True
          by (intro exI[of _ r]) (simp add: lenN node_old map_r update_conv')
      next
        case False
        then show ?thesis using a 3
          by (intro exI[of _ a]) (simp add: lenN node_old map_old)
      qed
    qed
  qed
  then show ?thesis unfolding fk'_def N_def kc_def .
qed


lemma take_common_len: "take (common_len a b) a = take (common_len a b) b"
  by (induction a b rule: common_len.induct) auto

lemma common_len_pos: "a \<noteq> [] \<Longrightarrow> b \<noteq> [] \<Longrightarrow> hd a = hd b \<Longrightarrow> 0 < common_len a b"
  by (cases a; cases b) auto

lemma split_heap:
  fixes cp :: string and c0 :: char and pe :: nat and child :: addr
  assumes wf: "wf_ins h fk" and r: "r < length (nodes h)" and c: "child < length (nodes h)"
  defines "N \<equiv> length (nodes h)"
  defines "h2 \<equiv> put_child (fst (alloc h cp (Some r) None)) r c0 N"
  defines "h3 \<equiv> set_key h2 child (drop pe (key (node h2 child)))"
  defines "h5 \<equiv> set_parent (put_child h3 N (hd (key (node h3 child))) child) child (Some N)"
  shows "key (node h3 child) = drop pe (key (nodes h ! child))"
    and "nodes h5 =
       (nodes h)[child := (nodes h ! child)\<lparr>key := drop pe (key (nodes h ! child)),
                                             parent := Some N\<rparr>] @
       [\<lparr>children = N, key = cp, parent = Some r, Value = None\<rparr>]"
    and "cmaps h5 =
       (cmaps h)[r := AList.update c0 N (cmaps h ! r)] @
       [[(hd (drop pe (key (nodes h ! child))), child)]]"
proof -
  have len: "length (cmaps h) = N" using wf_len[OF wf] N_def by simp
  have rN: "r < N" and cN: "child < N" using r c N_def by auto
  have n2: "nodes h2 = nodes h @ [\<lparr>children = N, key = cp, parent = Some r, Value = None\<rparr>]"
    by (simp add: h2_def len)
  have m2: "cmaps h2 = (cmaps h)[r := AList.update c0 N (cmaps h ! r)] @ [[]]"
    using rN len wf_children[OF wf r]
    by (simp add: h2_def cmaps_put_child nth_append N_def list_update_append)
  have k2: "key (node h2 child) = key (nodes h ! child)"
    using cN by (simp add: node_def n2 nth_append N_def)
  have n3: "nodes h3 = (nodes h)[child := (nodes h ! child)\<lparr>key := drop pe (key (nodes h ! child))\<rparr>] @
       [\<lparr>children = N, key = cp, parent = Some r, Value = None\<rparr>]"
    using cN by (simp add: h3_def nodes_set_key k2 n2 nth_append N_def list_update_append)
  have m3: "cmaps h3 = cmaps h2" by (simp add: h3_def set_key_def set_node_def)
  show k3: "key (node h3 child) = drop pe (key (nodes h ! child))"
    using cN by (simp add: node_def n3 nth_append N_def)
  have chN: "children (nodes h3 ! N) = N" by (simp add: n3 nth_append N_def)
  show "nodes h5 =
       (nodes h)[child := (nodes h ! child)\<lparr>key := drop pe (key (nodes h ! child)),
                                             parent := Some N\<rparr>] @
       [\<lparr>children = N, key = cp, parent = Some r, Value = None\<rparr>]"
    using cN by (simp add: h5_def nodes_set_parent n3 nth_append N_def list_update_append)
  show "cmaps h5 =
       (cmaps h)[r := AList.update c0 N (cmaps h ! r)] @
       [[(hd (drop pe (key (nodes h ! child))), child)]]"
    using len rN
    by (simp add: h5_def set_parent_def set_node_def cmaps_put_child chN m3 m2 k3
        nth_append list_update_append)
qed


lemma ins_post_leaf:
  assumes wf: "wf_ins h fk" and r: "r < length (nodes h)"
    and none: "map_of (cmaps h ! r) k0 = None"
  shows "ins_post h fk (fk r @ k0 # ks) v
           (put_child (fst (alloc h (k0 # ks) (Some r) v)) r k0 (length (nodes h)))
           (fk(length (nodes h) := fk r @ k0 # ks)) (length (nodes h))"
  unfolding ins_post_def using wf_ins_leaf[OF assms]
  by (auto simp: nth_append)

lemma ins_post_overwrite:
  assumes wf: "wf_ins h fk" and r: "r < length (nodes h)"
    and ch: "map_of (cmaps h ! r) k0 = Some child"
  shows "ins_post h fk (fk r @ key (nodes h ! child)) v (set_Value h child v) fk child"
proof -
  note ce = wf_entry[OF wf r map_of_SomeD[OF ch]]
  show ?thesis
    unfolding ins_post_def using wf_ins_set_Value[OF wf, where c=child and v=v] ce
    by (auto simp: nodes_set_Value nth_list_update)
qed

lemma lcp_nonempty:
  "k \<noteq> [] \<Longrightarrow> kc \<noteq> [] \<Longrightarrow>
   longestCommonPrefix k kc = (take (common_len k kc) k, common_len k kc)"
  by (simp add: longestCommonPrefix_def Let_def)

lemma insert_r_split_step:
  fixes h :: "'v heap"
  defines "N \<equiv> length (nodes h)"
  assumes ch: "child_at h r k0 = Some child"
    and ne: "k0 # ks \<noteq> key (node h child)"
    and l: "longestCommonPrefix (k0 # ks) (key (node h child)) = (cp, pe)"
    and cpk: "cp \<noteq> key (node h child)"
    and h2: "h2 = put_child (fst (alloc h cp (Some r) None)) r (hd cp) N"
    and h3: "h3 = set_key h2 child (drop pe (key (node h2 child)))"
    and h5: "h5 = set_parent (put_child h3 N (hd (key (node h3 child))) child) child (Some N)"
    and cp: "cp \<noteq> []" and k3: "key (node h3 child) \<noteq> []"
  shows "insert_r (Suc n) h r (k0 # ks) v =
           (if k0 # ks \<noteq> key (node h5 N)
            then (case insert_r n h5 N (drop pe (k0 # ks)) v of
                    Inl e \<Rightarrow> Inl e
                  | Inr (h6, _) \<Rightarrow> Inr (h6, N))
            else Inr (set_Value h5 N v, N))"
proof -
  obtain c0 cs where cpl: "cp = c0 # cs" using cp by (cases cp) auto
  obtain d0 ds where dl: "key (node h3 child) = d0 # ds" using k3 by (cases "key (node h3 child)") auto
  define h1 where "h1 = fst (alloc h cp (Some r) None)"
  have a: "alloc h (c0 # cs) (Some r) None = (h1, N)"
    by (simp add: alloc_def N_def h1_def cpl)
  have h2': "h2 = put_child h1 r c0 N" using h2 by (simp add: h1_def cpl)
  have l': "longestCommonPrefix (k0 # ks) (key (node h child)) = (c0 # cs, pe)"
    using l cpl by simp
  have cpk': "c0 # cs \<noteq> key (node h child)" using cpk cpl by simp
  have k5: "key (node h5 N) = key (node (set_parent (put_child h3 N d0 child) child (Some N)) N)"
    using h5 dl by simp
  show ?thesis
    apply (simp only: insert_r.simps ch option.case ne if_False l' prod.case Let_def cpk' a
        list.case h2'[symmetric] h3[symmetric] dl)
    apply (simp only: h5 dl list.sel)
    done
qed

lemma insert_r_wf:
  "wf_ins h fk \<Longrightarrow> r < length (nodes h) \<Longrightarrow> k \<noteq> [] \<Longrightarrow> length k \<le> n \<Longrightarrow>
   \<exists>h' c fk' t. insert_r n h r k v = Inr (h', c) \<and> ins_post h fk (fk r @ k) v h' fk' t"
proof (induction n arbitrary: h r k fk)
  case 0
  then show ?case by simp
next
  case (Suc n)
  note wf = Suc.prems(1) and r = Suc.prems(2)
  obtain k0 ks where k: "k = k0 # ks" using Suc.prems(3) by (cases k) auto
  define N where "N = length (nodes h)"
  have kids: "child_at h r k0 = map_of (cmaps h ! r) k0"
    by (simp add: child_at_def wf_kids[OF wf r])
  show ?case
  proof (cases "map_of (cmaps h ! r) k0")
    case None
    have "insert_r (Suc n) h r k v =
            Inr (put_child (fst (alloc h (k0 # ks) (Some r) v)) r k0 (length (nodes h)),
                 length (nodes h))"
      using None kids k by (simp add: case_prod_unfold)
    then show ?thesis using ins_post_leaf[OF wf r None, where ks=ks and v=v] k by blast
  next
    case (Some child)
    note ce = wf_entry[OF wf r map_of_SomeD[OF Some]]
    define kc where "kc = key (nodes h ! child)"
    have kc: "key (node h child) = kc" by (simp add: node_def kc_def)
    have kc_ne: "kc \<noteq> []" and hd_kc: "hd kc = k0" and fkc: "fk child = fk r @ kc"
      using ce kc_def by auto
    show ?thesis
    proof (cases "k = kc")
      case True
      have "insert_r (Suc n) h r k v = Inr (set_Value h child v, child)"
        using Some kids k kc True by simp
      then show ?thesis using ins_post_overwrite[OF wf r Some, where v=v] True kc_def by blast
    next
      case False
      note knk = this
      define pe where "pe = common_len k kc"
      define cp where "cp = take pe k"
      have l: "longestCommonPrefix k kc = (cp, pe)"
        using lcp_nonempty[OF Suc.prems(3) kc_ne] by (simp add: cp_def pe_def)
      have pe0: "0 < pe" using common_len_pos[OF Suc.prems(3) kc_ne] hd_kc k by (simp add: pe_def)
      have cp_kc: "cp = take pe kc" using take_common_len[of k kc] by (simp add: cp_def pe_def)
      have pe_le: "pe \<le> length k" "pe \<le> length kc" using common_len_le[of k kc] by (auto simp: pe_def)
      have rest_len: "length (drop pe k) \<le> n" using pe0 Suc.prems(4) by simp
      have app: "cp @ drop pe k = k" by (simp add: cp_def)
      show ?thesis
      proof (cases "cp = kc")
        case True
        have ne: "drop pe k \<noteq> []"
        proof
          assume "drop pe k = []"
          then have "k = cp" using app by simp
          then show False using True knk by simp
        qed
        have step: "insert_r (Suc n) h r k v = insert_r n h child (drop pe k) v"
          using Some kids k kc knk l True by simp
        from Suc.IH[OF wf ce(1) ne rest_len] obtain h' c fk' t where
          res: "insert_r n h child (drop pe k) v = Inr (h', c)"
          and post: "ins_post h fk (fk child @ drop pe k) v h' fk' t" by blast
        have "fk child @ drop pe k = fk r @ k" using fkc True app by (metis append.assoc)
        then show ?thesis using step res post by auto
      next
        case False
        note cpnk = this
        have pe_lt: "pe < length kc"
        proof (rule ccontr)
          assume "\<not> pe < length kc"
          then have "take pe kc = kc" using pe_le by simp
          then show False using cpnk cp_kc by simp
        qed
        have cp_ne: "cp \<noteq> []" using pe0 Suc.prems(3) by (simp add: cp_def)
        have hd_cp: "hd cp = k0" using pe0 k by (cases pe) (auto simp: cp_def)
        define h2 where "h2 = put_child (fst (alloc h cp (Some r) None)) r k0 N"
        define h3 where "h3 = set_key h2 child (drop pe (key (node h2 child)))"
        define h5 where "h5 = set_parent (put_child h3 N (hd (key (node h3 child))) child) child (Some N)"
        have sh:
          "key (node h3 child) = drop pe kc"
          "nodes h5 = (nodes h)[child := (nodes h ! child)\<lparr>key := drop pe kc, parent := Some N\<rparr>] @
             [\<lparr>children = N, key = cp, parent = Some r, Value = None\<rparr>]"
          "cmaps h5 = (cmaps h)[r := AList.update k0 N (cmaps h ! r)] @ [[(hd (drop pe kc), child)]]"
          using split_heap[where cp=cp and ?c0.0=k0 and pe=pe, OF wf r ce(1)]
          unfolding h5_def h3_def h2_def N_def kc_def by blast+
        have k3: "key (node h3 child) = drop pe kc" using sh(1) .
        have k3_ne: "drop pe kc \<noteq> []" using pe_lt by simp
        define fk5 where "fk5 = fk(N := fk r @ cp)"
        have wf5: "wf_ins h5 fk5"
          using wf_ins_split[OF wf r Some pe0, where ?h5.0=h5] pe_lt sh(2,3)
          by (simp add: kc_def N_def cp_kc fk5_def)
        have len5: "length (nodes h5) = Suc N" by (simp add: sh(2) N_def)
        have kN: "key (node h5 N) = cp" by (simp add: node_def sh(2) nth_append N_def)
        have val5: "Value (nodes h5 ! a) = (if a < N then Value (nodes h ! a) else None)"
          if "a < Suc N" for a
          using that by (cases "a = child") (auto simp: sh(2) nth_append N_def nth_list_update)
        have p1: "child_at h r k0 = Some child" using Some kids by simp
        have p2: "k0 # ks \<noteq> key (node h child)" using knk k kc by simp
        have p3: "longestCommonPrefix (k0 # ks) (key (node h child)) = (cp, pe)"
          using l k kc by simp
        have p4: "cp \<noteq> key (node h child)" using cpnk kc by simp
        have p5: "h2 = put_child (fst (alloc h cp (Some r) None)) r (hd cp) (length (nodes h))"
          by (simp add: h2_def hd_cp N_def)
        have p7: "h5 = set_parent (put_child h3 (length (nodes h)) (hd (key (node h3 child))) child)
                        child (Some (length (nodes h)))"
          by (simp add: h5_def N_def)
        have p9: "key (node h3 child) \<noteq> []" using k3 k3_ne by simp
        have step: "insert_r (Suc n) h r k v =
                (if k \<noteq> cp
                 then (case insert_r n h5 N (drop pe k) v of
                         Inl e \<Rightarrow> Inl e
                       | Inr (h6, _) \<Rightarrow> Inr (h6, N))
                 else Inr (set_Value h5 N v, N))"
          using insert_r_split_step[OF p1 p2 p3 p4 p5 h3_def p7 cp_ne p9, of n v]
          unfolding k kN[unfolded N_def] N_def .
        show ?thesis
        proof (cases "k = cp")
          case True
          have "ins_post h fk (fk r @ k) v (set_Value h5 N v) fk5 N"
            unfolding ins_post_def
            using wf_ins_set_Value[OF wf5, where c=N and v=v] len5 val5 True
            by (auto simp: nodes_set_Value nth_list_update N_def fk5_def)
          then show ?thesis using step True by auto
        next
          case False
          have ne: "drop pe k \<noteq> []"
          proof
            assume "drop pe k = []"
            then have "k = cp" using app by simp
            then show False using False by simp
          qed
          have N5: "N < length (nodes h5)" using len5 by simp
          from Suc.IH[OF wf5 N5 ne rest_len] obtain h6 c fk6 t where
            res: "insert_r n h5 N (drop pe k) v = Inr (h6, c)"
            and post: "ins_post h5 fk5 (fk5 N @ drop pe k) v h6 fk6 t" by blast
          have full: "fk5 N @ drop pe k = fk r @ k" using app by (simp add: fk5_def)
          have "ins_post h fk (fk r @ k) v h6 fk6 t"
            using post full len5 val5 unfolding ins_post_def
            by (auto simp: N_def fk5_def split: if_splits)
          then show ?thesis using step False res by auto
        qed
      qed
    qed
  qed
qed


lemma wf_ins_New: "wf_ins (fst (New empty_heap)) (\<lambda>a. [])"
  by (rule wf_insI) (simp_all add: New_def alloc_def empty_heap_def)

lemma descend_mono:
  "descend m h r k = Inr res \<Longrightarrow> descend (m + j) h r k = Inr res"
proof (induction m arbitrary: r k)
  case 0
  then show ?case by (cases k) auto
next
  case (Suc m)
  then show ?case by (cases k) (auto split: option.splits if_splits)
qed

lemma descend_append:
  "descend m h r k1 = Inr (b, True) \<Longrightarrow> k2 \<noteq> [] \<Longrightarrow> descend m' h b k2 = Inr res \<Longrightarrow>
   descend (m + m') h r (k1 @ k2) = Inr res"
proof (induction m arbitrary: r k1)
  case 0
  then show ?case by (cases k1) auto
next
  case (Suc m)
  obtain k0 ks where k1: "k1 = k0 # ks" using Suc.prems(1) by (cases k1) auto
  show ?case
  proof (cases "child_at h r k0")
    case None
    then show ?thesis using Suc.prems(1) k1 by simp
  next
    case (Some c)
    define kc where "kc = key (node h c)"
    show ?thesis
    proof (cases "key (node h c) = k0 # ks")
      case True
      then have b: "b = c" using Suc.prems(1) k1 Some by simp
      have "descend (m' + m) h c k2 = Inr res" using Suc.prems(3) b by (simp add: descend_mono)
      then have "descend (m + m') h c k2 = Inr res" by (simp add: add.commute)
      then show ?thesis using k1 Some True Suc.prems(2) by simp
    next
      case False
      then have ne: "k1 \<noteq> kc" using k1 kc_def by auto
      have pre: "take (length kc) k1 = kc"
        and d: "descend m h c (drop (length kc) k1) = Inr (b, True)"
        using Suc.prems(1) k1 Some kc_def False by (auto split: if_splits)
      have "length (take (length kc) k1) = length kc" using pre by simp
      then have le: "length kc \<le> length k1" by simp
      have lt: "length kc < length (k1 @ k2)" using le Suc.prems(2) by (cases k2) auto
      have "k1 @ k2 \<noteq> kc" using lt by auto
      moreover have "take (length kc) (k1 @ k2) = kc" using pre le by simp
      moreover have "drop (length kc) (k1 @ k2) = drop (length kc) k1 @ k2" using le by simp
      ultimately have "descend (Suc (m + m')) h r (k1 @ k2) =
                       descend (m + m') h c (drop (length kc) k1 @ k2)"
        using k1 Some kc_def by simp
      then show ?thesis using Suc.IH[OF d Suc.prems(2,3)] by simp
    qed
  qed
qed


lemma descend_one:
  assumes wf: "wf_ins h fk" and a: "a < length (nodes h)" and e: "(b, c) \<in> set (cmaps h ! a)"
  shows "descend (Suc m) h a (key (nodes h ! c)) = Inr (c, True)"
proof -
  note ce = wf_entry[OF wf a e]
  obtain k0 ks where k: "key (nodes h ! c) = k0 # ks" using ce(2) by (cases "key (nodes h ! c)") auto
  have "b = k0" using ce(3) k by simp
  then have "map_of (cmaps h ! a) k0 = Some c" using e wf_distinct[OF wf a] by simp
  then have "child_at h a k0 = Some c" by (simp add: child_at_def wf_kids[OF wf a])
  then show ?thesis using k by (simp add: node_def)
qed

lemma descend_fk:
  assumes wf: "wf_ins h fk"
  shows "c < length (nodes h) \<Longrightarrow> c \<noteq> 0 \<Longrightarrow>
         \<exists>m. m \<le> length (fk c) \<and> descend m h 0 (fk c) = Inr (c, True)"
proof (induction "length (fk c)" arbitrary: c rule: less_induct)
  case less
  from wf_parent[OF wf less.prems] obtain a where a: "a < length (nodes h)"
    and e: "map_of (cmaps h ! a) (hd (key (nodes h ! c))) = Some c" by blast
  note ce = wf_entry[OF wf a map_of_SomeD[OF e]]
  have one: "descend (Suc 0) h a (key (nodes h ! c)) = Inr (c, True)"
    using descend_one[OF wf a map_of_SomeD[OF e]] .
  show ?case
  proof (cases "a = 0")
    case True
    then have "fk c = key (nodes h ! c)" using ce(5) wf_fk0[OF wf] by simp
    moreover have "Suc 0 \<le> length (key (nodes h ! c))" using ce(2) by (cases "key (nodes h ! c)") auto
    ultimately show ?thesis using one True by auto
  next
    case False
    have "length (fk a) < length (fk c)" using ce(5) ce(2) by simp
    from less.hyps[OF this a False] obtain m where m: "m \<le> length (fk a)"
      and d: "descend m h 0 (fk a) = Inr (a, True)" by blast
    have "descend (m + Suc 0) h 0 (fk a @ key (nodes h ! c)) = Inr (c, True)"
      using descend_append[OF d ce(2) one] .
    moreover have "m + Suc 0 \<le> length (fk c)" using m ce(5) ce(2)
      by (cases "key (nodes h ! c)") auto
    ultimately show ?thesis using ce(5) by auto
  qed
qed

lemma find_r_exact:
  "descend m h r k = Inr (t, True) \<Longrightarrow> has_value h t \<Longrightarrow> m \<le> n \<Longrightarrow>
   find_r n h r k = Inr (Some t, True)"
proof (induction m arbitrary: r k n)
  case 0
  then show ?case by (cases k) auto
next
  case (Suc m)
  obtain k0 ks where k: "k = k0 # ks" using Suc.prems(1) by (cases k) auto
  have kne: "k \<noteq> []" using k by simp
  from Suc.prems(3) obtain n' where n: "n = Suc n'" and le: "m \<le> n'" by (cases n) auto
  show ?case
  proof (cases "child_at h r k0")
    case None
    then show ?thesis using Suc.prems(1) k by simp
  next
    case (Some c)
    show ?thesis
    proof (cases "key (node h c) = k0 # ks")
      case True
      then have "t = c" using Suc.prems(1) k Some by simp
      then show ?thesis using True k n Some Suc.prems(2) by (simp add: has_value_def)
    next
      case False
      then have knk: "k \<noteq> key (node h c)" using k by auto
      have pre: "take (length (key (node h c))) k = key (node h c)"
        and d: "descend m h c (drop (length (key (node h c))) k) = Inr (t, True)"
        using Suc.prems(1) k Some False by (auto split: if_splits)
      obtain cp pe where l: "longestCommonPrefix k (key (node h c)) = (cp, pe)"
        by (cases "longestCommonPrefix k (key (node h c))") auto
      note iff = lcp_eq_iff[OF kne l]
      have cp: "key (node h c) = cp" using iff(1) pre by simp
      have pe: "pe = length (key (node h c))" using iff(2) cp by simp
      have "find_r n h r k = find_r n' h c (drop pe k)"
        using k n Some False l cp by simp
      then show ?thesis using Suc.IH[OF d Suc.prems(2) le] pe by simp
    qed
  qed
qed

lemma insert_all_wf:
  "wf_ins h fk \<Longrightarrow> \<forall>(k, v) \<in> set kvs. k \<noteq> [] \<Longrightarrow> distinct (map fst kvs) \<Longrightarrow>
   \<exists>h' fk'. insert_all h 0 kvs = Inr h' \<and> wf_ins h' fk' \<and>
      length (nodes h) \<le> length (nodes h') \<and>
      (\<forall>(k, v) \<in> set kvs. \<exists>t < length (nodes h'). fk' t = k \<and> Value (nodes h' ! t) = Some v) \<and>
      (\<forall>t < length (nodes h). fk' t = fk t \<and>
          (fk t \<notin> fst ` set kvs \<longrightarrow> Value (nodes h' ! t) = Value (nodes h ! t)))"
proof (induction kvs arbitrary: h fk)
  case Nil
  then show ?case by auto
next
  case (Cons kv kvs)
  obtain k v where kv: "kv = (k, v)" by (cases kv) auto
  have kne: "k \<noteq> []" using Cons.prems(2) kv by simp
  have fresh: "k \<notin> fst ` set kvs" using Cons.prems(3) kv by simp
  from insert_r_wf[OF Cons.prems(1) wf_pos[OF Cons.prems(1)] kne, of "Suc (length k)" "Some v"]
  obtain h1 c fk1 t1 where res: "insert_r (Suc (length k)) h 0 k (Some v) = Inr (h1, c)"
    and post: "ins_post h fk (fk 0 @ k) (Some v) h1 fk1 t1" by auto
  have p: "wf_ins h1 fk1" "length (nodes h) \<le> length (nodes h1)"
    "\<And>a. a < length (nodes h) \<Longrightarrow> fk1 a = fk a"
    "t1 < length (nodes h1)" "fk1 t1 = k" "Value (nodes h1 ! t1) = Some v"
    "\<And>a. a < length (nodes h) \<Longrightarrow> a \<noteq> t1 \<Longrightarrow> Value (nodes h1 ! a) = Value (nodes h ! a)"
    using post wf_fk0[OF Cons.prems(1)] unfolding ins_post_def by auto
  have rest: "\<forall>(k, v) \<in> set kvs. k \<noteq> []" "distinct (map fst kvs)" using Cons.prems(2,3) by auto
  from Cons.IH[OF p(1) rest] obtain h' fk' where
    r1: "insert_all h1 0 kvs = Inr h'" and r2: "wf_ins h' fk'"
    and r3: "length (nodes h1) \<le> length (nodes h')"
    and r4: "\<forall>(k, v) \<in> set kvs. \<exists>t < length (nodes h'). fk' t = k \<and> Value (nodes h' ! t) = Some v"
    and r5: "\<forall>t < length (nodes h1). fk' t = fk1 t \<and>
          (fk1 t \<notin> fst ` set kvs \<longrightarrow> Value (nodes h' ! t) = Value (nodes h1 ! t))"
    by blast
  have a1: "insert_all h 0 (kv # kvs) = Inr h'" using res r1 kv by simp
  have a2: "\<exists>t < length (nodes h'). fk' t = k \<and> Value (nodes h' ! t) = Some v"
    using r5 p(4,5,6) fresh r3 by (intro exI[of _ t1]) auto
  have a3: "fk' t = fk t \<and>
          (fk t \<notin> fst ` set (kv # kvs) \<longrightarrow> Value (nodes h' ! t) = Value (nodes h ! t))"
    if t: "t < length (nodes h)" for t
  proof -
    have t1': "t < length (nodes h1)" using t p(2) by simp
    have f: "fk' t = fk t" using r5 t1' p(3)[OF t] by simp
    have "Value (nodes h' ! t) = Value (nodes h ! t)" if nin: "fk t \<notin> fst ` set (kv # kvs)"
    proof -
      have "fk t \<noteq> k" and nin': "fk1 t \<notin> fst ` set kvs" using nin kv p(3)[OF t] by auto
      then have "t \<noteq> t1" using p(5) p(3)[OF t] by auto
      then have "Value (nodes h1 ! t) = Value (nodes h ! t)" using p(7)[OF t] by simp
      then show ?thesis using r5 t1' nin' by simp
    qed
    then show ?thesis using f by simp
  qed
  show ?case
    using a1 r2 r3 p(2) a2 r4 a3 kv by (intro exI[of _ h'] exI[of _ fk']) auto
qed

lemma wf_heap_ok: assumes wf: "wf_ins h fk" shows "heap_ok h"
proof -
  have len: "length (cmaps h) = length (nodes h)" using wf_len[OF wf] .
  have n: "children x < length (cmaps h) \<and>
           (case parent x of None \<Rightarrow> True | Some p \<Rightarrow> p < length (nodes h))"
    if "x \<in> set (nodes h)" for x
  proof -
    from that obtain a where a: "a < length (nodes h)" "x = nodes h ! a"
      by (auto simp: in_set_conv_nth)
    have "children x < length (cmaps h)" using wf_children[OF wf a(1)] a len by simp
    moreover have "case parent x of None \<Rightarrow> True | Some p \<Rightarrow> p < length (nodes h)"
    proof (cases "a = 0")
      case True
      then show ?thesis using wf_root[OF wf] a by simp
    next
      case False
      from wf_parent[OF wf a(1) False] show ?thesis using a by auto
    qed
    ultimately show ?thesis by simp
  qed
  have m: "distinct (map fst m) \<and> (\<forall>(b, c) \<in> set m. c < length (nodes h) \<and> key (node h c) \<noteq> [])"
    if "m \<in> set (cmaps h)" for m
  proof -
    from that obtain a where a: "a < length (nodes h)" "m = cmaps h ! a"
      using len by (auto simp: in_set_conv_nth)
    show ?thesis using wf_distinct[OF wf a(1)] wf_entry(1,2)[OF wf a(1)] a
      by (auto simp: node_def)
  qed
  show ?thesis unfolding heap_ok_def using n m by blast
qed

lemma chain_mono: "chain m h a = Some as \<Longrightarrow> chain (m + j) h a = Some as"
proof (induction m arbitrary: a as)
  case 0
  then show ?case by simp
next
  case (Suc m)
  then show ?case by (cases "parent (node h a)") auto
qed

lemma chain_length: "chain m h a = Some as \<Longrightarrow> chain (length as) h a = Some as"
proof (induction m arbitrary: a as)
  case 0
  then show ?case by simp
next
  case (Suc m)
  then show ?case by (cases "parent (node h a)") auto
qed

lemma wf_chain:
  assumes wf: "wf_ins h fk"
  shows "a < length (nodes h) \<Longrightarrow>
         \<exists>as. chain (Suc (length (fk a))) h a = Some as \<and> distinct as \<and>
              (\<forall>x \<in> set as. x < length (nodes h) \<and> length (fk x) \<le> length (fk a))"
proof (induction "length (fk a)" arbitrary: a rule: less_induct)
  case less
  show ?case
  proof (cases "a = 0")
    case True
    then show ?thesis using wf_root[OF wf] less.prems by (simp add: node_def)
  next
    case False
    from wf_parent[OF wf less.prems False] obtain p where p: "p < length (nodes h)"
      and pp: "parent (nodes h ! a) = Some p"
      and e: "map_of (cmaps h ! p) (hd (key (nodes h ! a))) = Some a" by blast
    note ce = wf_entry[OF wf p map_of_SomeD[OF e]]
    have lt: "length (fk p) < length (fk a)" using ce(5) ce(2) by simp
    from less.hyps[OF lt p] obtain as where as: "chain (Suc (length (fk p))) h p = Some as"
      "distinct as" "\<forall>x \<in> set as. x < length (nodes h) \<and> length (fk x) \<le> length (fk p)"
      by blast
    have "chain (Suc (length (fk p)) + (length (fk a) - Suc (length (fk p)))) h p = Some as"
      using as(1) by (rule chain_mono)
    moreover have "Suc (length (fk p)) + (length (fk a) - Suc (length (fk p))) = length (fk a)"
      using lt by simp
    ultimately have "chain (length (fk a)) h p = Some as" by (simp only:)
    then have "chain (Suc (length (fk a))) h a = Some (a # as)" using pp by (simp add: node_def)
    moreover have "a \<notin> set as" using as(3) lt by auto
    ultimately show ?thesis using as(2,3) lt less.prems by auto
  qed
qed

lemma wf_parents_acyclic: assumes wf: "wf_ins h fk" shows "parents_acyclic h"
proof -
  have "chain (length (nodes h)) h a \<noteq> None" if a: "a < length (nodes h)" for a
  proof -
    from wf_chain[OF wf a] obtain as where as: "chain (Suc (length (fk a))) h a = Some as"
      "distinct as" "\<forall>x \<in> set as. x < length (nodes h)" by blast
    have "set as \<subseteq> {..< length (nodes h)}" using as(3) by auto
    then have "card (set as) \<le> card {..< length (nodes h)}" by (intro card_mono) auto
    then have le: "length as \<le> length (nodes h)" using as(2) by (simp add: distinct_card)
    have "chain (length as + (length (nodes h) - length as)) h a = Some as"
      using chain_length[OF as(1)] by (rule chain_mono)
    moreover have "length as + (length (nodes h) - length as) = length (nodes h)"
      using le by simp
    ultimately show ?thesis by (simp only:) simp
  qed
  then show ?thesis by (auto simp: parents_acyclic_def)
qed

lemma Key_loop_mono: "Key_loop m h x s = Inr res \<Longrightarrow> Key_loop (m + j) h x s = Inr res"
proof (induction m arbitrary: x s)
  case 0
  then show ?case by (cases x) auto
next
  case (Suc m)
  then show ?case by (cases x) auto
qed

lemma Key_loop_fk:
  assumes wf: "wf_ins h fk"
  shows "a < length (nodes h) \<Longrightarrow> Key_loop (Suc (length (fk a))) h (Some a) s = Inr (fk a @ s)"
proof (induction "length (fk a)" arbitrary: a s rule: less_induct)
  case less
  show ?case
  proof (cases "a = 0")
    case True
    then show ?thesis using wf_root[OF wf] wf_fk0[OF wf] wf_key0[OF wf] by (simp add: node_def)
  next
    case False
    from wf_parent[OF wf less.prems False] obtain p where p: "p < length (nodes h)"
      and pp: "parent (nodes h ! a) = Some p"
      and e: "map_of (cmaps h ! p) (hd (key (nodes h ! a))) = Some a" by blast
    note ce = wf_entry[OF wf p map_of_SomeD[OF e]]
    have lt: "length (fk p) < length (fk a)" using ce(5) ce(2) by simp
    have "Key_loop (Suc (length (fk p)) + (length (fk a) - Suc (length (fk p)))) h (Some p)
            (key (nodes h ! a) @ s) = Inr (fk p @ key (nodes h ! a) @ s)"
      using less.hyps[OF lt p] by (rule Key_loop_mono)
    moreover have "Suc (length (fk p)) + (length (fk a) - Suc (length (fk p))) = length (fk a)"
      using lt by simp
    ultimately have "Key_loop (length (fk a)) h (Some p) (key (nodes h ! a) @ s) =
                     Inr (fk a @ s)" using ce(5) by (simp only:) simp
    then show ?thesis using pp by (simp add: node_def)
  qed
qed

lemma Key_loop_chain:
  "chain m h a = Some as \<Longrightarrow> \<exists>res. Key_loop m h (Some a) s = Inr res"
proof (induction m arbitrary: a as s)
  case 0
  then show ?case by simp
next
  case (Suc m)
  then show ?case by (cases "parent (node h a)") auto
qed

lemma Key_fk:
  assumes wf: "wf_ins h fk" and a: "a < length (nodes h)"
  shows "Key (length (nodes h)) h a = Inr (fk a)"
proof -
  define N where "N = length (nodes h)"
  have "a \<in> set [0 ..< length (nodes h)]" using a by simp
  then have "chain N h a \<noteq> None"
    using wf_parents_acyclic[OF wf] unfolding parents_acyclic_def N_def by blast
  then obtain as where "chain N h a = Some as" by auto
  from Key_loop_chain[OF this, of "[]"] obtain res where res: "Key_loop N h (Some a) [] = Inr res"
    by blast
  have K: "Key_loop (Suc (length (fk a))) h (Some a) [] = Inr (fk a)"
    using Key_loop_fk[OF wf a, of "[]"] by simp
  have "Key_loop (N + Suc (length (fk a))) h (Some a) [] = Inr res"
    using res by (rule Key_loop_mono)
  moreover have "Key_loop (Suc (length (fk a)) + N) h (Some a) [] = Inr (fk a)"
    using K by (rule Key_loop_mono)
  ultimately have "res = fk a" by (simp add: add.commute)
  then show ?thesis using res by (simp add: Key_def N_def)
qed

lemma chain_unique: "chain m h a = Some as \<Longrightarrow> chain m' h a = Some as' \<Longrightarrow> as = as'"
proof -
  assume a: "chain m h a = Some as" and b: "chain m' h a = Some as'"
  have "chain (m + m') h a = Some as" using a by (rule chain_mono)
  moreover have "chain (m' + m) h a = Some as'" using b by (rule chain_mono)
  ultimately show ?thesis by (simp add: add.commute)
qed

lemma wf_chain_length:
  assumes wf: "wf_ins h fk" and a: "a < length (nodes h)" and c: "chain m h a = Some as"
  shows "length as \<le> length (nodes h)"
proof -
  from wf_chain[OF wf a] obtain as' where as: "chain (Suc (length (fk a))) h a = Some as'"
    "distinct as'" "\<forall>x \<in> set as'. x < length (nodes h)" by blast
  have "as = as'" using chain_unique[OF c as(1)] .
  moreover have "set as' \<subseteq> {..< length (nodes h)}" using as(3) by auto
  then have "card (set as') \<le> card {..< length (nodes h)}" by (intro card_mono) auto
  ultimately show ?thesis using as(2) by (simp add: distinct_card)
qed

lemma reach_fold_Inr:
  "\<forall>(b, c) \<in> set al. \<exists>ys. reach m h c = Inr ys \<Longrightarrow>
   \<exists>xs. fold (\<lambda>(b, child) acc.
                case acc of
                  Inl e \<Rightarrow> Inl e
                | Inr xs \<Rightarrow> (case reach m h child of
                               Inl e \<Rightarrow> Inl e
                             | Inr ys \<Rightarrow> Inr (xs @ ys)))
             al (Inr xs0) = Inr xs"
proof (induction al arbitrary: xs0)
  case Nil
  then show ?case by simp
next
  case (Cons p al)
  obtain b c where p: "p = (b, c)" by (cases p) auto
  from Cons.prems p obtain ys where ys: "reach m h c = Inr ys" by auto
  have "\<forall>(b, c) \<in> set al. \<exists>ys. reach m h c = Inr ys" using Cons.prems by auto
  from Cons.IH[OF this, of "xs0 @ ys"] show ?case using p ys by simp
qed

lemma wf_reach_total:
  assumes wf: "wf_ins h fk"
  shows "a < length (nodes h) \<Longrightarrow> chain M h a = Some as \<Longrightarrow>
         length (nodes h) < length as + m \<Longrightarrow> \<exists>xs. reach m h a = Inr xs"
proof (induction m arbitrary: a as M)
  case 0
  then show ?case using wf_chain_length[OF wf "0.prems"(1,2)] by simp
next
  case (Suc m)
  have "\<exists>ys. reach m h c = Inr ys" if e: "(b, c) \<in> set (kids h a)" for b c
  proof -
    have e': "(b, c) \<in> set (cmaps h ! a)" using e wf_kids[OF wf Suc.prems(1)] by simp
    note ce = wf_entry[OF wf Suc.prems(1) e']
    have "chain (Suc M) h c = Some (c # as)" using ce(4) Suc.prems(2) by (simp add: node_def)
    from Suc.IH[OF ce(1) this] Suc.prems(3) show ?thesis by simp
  qed
  then have "\<forall>(b, c) \<in> set (kids h a). \<exists>ys. reach m h c = Inr ys" by auto
  from reach_fold_Inr[OF this, of "[a]"] show ?case by simp
qed

lemma wf_reach_fold:
  assumes wf: "wf_ins h fk"
    and IH: "\<And>c ys. c < length (nodes h) \<Longrightarrow> reach m h c = Inr ys \<Longrightarrow>
               distinct ys \<and> (\<forall>x \<in> set ys. take (length (fk c)) (fk x) = fk c)"
  shows "\<forall>(b, c) \<in> set al. c < length (nodes h) \<and> fk c = fk a @ key (nodes h ! c) \<and>
            key (nodes h ! c) \<noteq> [] \<and> hd (key (nodes h ! c)) = b \<Longrightarrow>
         distinct (map fst al) \<Longrightarrow>
         distinct xs0 \<Longrightarrow>
         \<forall>x \<in> set xs0. take (length (fk a)) (fk x) = fk a \<and>
            (x \<noteq> a \<longrightarrow> length (fk a) < length (fk x) \<and> fk x ! length (fk a) \<notin> fst ` set al) \<Longrightarrow>
         fold (\<lambda>(b, child) acc.
                case acc of
                  Inl e \<Rightarrow> Inl e
                | Inr xs \<Rightarrow> (case reach m h child of
                               Inl e \<Rightarrow> Inl e
                             | Inr ys \<Rightarrow> Inr (xs @ ys)))
              al (Inr xs0) = Inr xs \<Longrightarrow>
         distinct xs \<and> (\<forall>x \<in> set xs. take (length (fk a)) (fk x) = fk a)"
proof (induction al arbitrary: xs0)
  case Nil
  then show ?case by simp
next
  case (Cons p al)
  obtain b c where p: "p = (b, c)" by (cases p) auto
  have c: "c < length (nodes h)" "fk c = fk a @ key (nodes h ! c)" "key (nodes h ! c) \<noteq> []"
    "hd (key (nodes h ! c)) = b" using Cons.prems(1) p by auto
  show ?case
  proof (cases "reach m h c")
    case (Inl e)
    then show ?thesis using Cons.prems(5) p by (simp add: fold_Inl_Len)
  next
    case (Inr ys)
    note P = IH[OF c(1) Inr]
    have ys: "take (length (fk a)) (fk y) = fk a \<and> length (fk a) < length (fk y) \<and>
              fk y ! length (fk a) = b" if "y \<in> set ys" for y
    proof -
      have t: "take (length (fk c)) (fk y) = fk c" using P that by blast
      then have "length (fk c) \<le> length (fk y)" by (metis length_take min.cobounded2 min.commute)
      then have l: "length (fk a) < length (fk y)" using c(2,3)
        by (cases "key (nodes h ! c)") auto
      have "fk y = fk c @ drop (length (fk c)) (fk y)" using t by (metis append_take_drop_id)
      then have f: "fk y = fk a @ key (nodes h ! c) @ drop (length (fk c)) (fk y)"
        using c(2) by simp
      have "take (length (fk a)) (fk y) = fk a" by (subst f) simp
      moreover have "fk y ! length (fk a) = hd (key (nodes h ! c))"
        using c(3) by (subst f) (simp add: nth_append hd_conv_nth)
      ultimately show ?thesis using l c(4) by simp
    qed
    have bnot: "b \<notin> fst ` set al" using Cons.prems(2) p by simp
    have disj: "set xs0 \<inter> set ys = {}"
    proof (rule ccontr)
      assume "set xs0 \<inter> set ys \<noteq> {}"
      then obtain x where x: "x \<in> set xs0" "x \<in> set ys" by auto
      show False
      proof (cases "x = a")
        case True
        then show ?thesis using ys[OF x(2)] by simp
      next
        case False
        then have "fk x ! length (fk a) \<notin> fst ` set (p # al)" using Cons.prems(4) x(1) by blast
        then show ?thesis using ys[OF x(2)] p by simp
      qed
    qed
    have d: "distinct (xs0 @ ys)" using Cons.prems(3) P disj by simp
    have inv: "\<forall>x \<in> set (xs0 @ ys). take (length (fk a)) (fk x) = fk a \<and>
            (x \<noteq> a \<longrightarrow> length (fk a) < length (fk x) \<and> fk x ! length (fk a) \<notin> fst ` set al)"
      using Cons.prems(4) ys bnot by auto
    have f: "fold (\<lambda>(b, child) acc.
                case acc of
                  Inl e \<Rightarrow> Inl e
                | Inr xs \<Rightarrow> (case reach m h child of
                               Inl e \<Rightarrow> Inl e
                             | Inr ys \<Rightarrow> Inr (xs @ ys)))
              al (Inr (xs0 @ ys)) = Inr xs" using Cons.prems(5) p Inr by simp
    have e: "\<forall>(b, c) \<in> set al. c < length (nodes h) \<and> fk c = fk a @ key (nodes h ! c) \<and>
            key (nodes h ! c) \<noteq> [] \<and> hd (key (nodes h ! c)) = b" using Cons.prems(1) by auto
    have d2: "distinct (map fst al)" using Cons.prems(2) by simp
    from Cons.IH[OF e d2 d inv f] show ?thesis .
  qed
qed

lemma wf_reach_distinct:
  assumes wf: "wf_ins h fk"
  shows "a < length (nodes h) \<Longrightarrow> reach m h a = Inr xs \<Longrightarrow>
         distinct xs \<and> (\<forall>x \<in> set xs. take (length (fk a)) (fk x) = fk a)"
proof (induction m arbitrary: a xs)
  case 0
  then show ?case by simp
next
  case (Suc m)
  have e: "\<forall>(b, c) \<in> set (kids h a). c < length (nodes h) \<and> fk c = fk a @ key (nodes h ! c) \<and>
            key (nodes h ! c) \<noteq> [] \<and> hd (key (nodes h ! c)) = b"
    using wf_entry[OF wf Suc.prems(1)] wf_kids[OF wf Suc.prems(1)] by auto
  have d: "distinct (map fst (kids h a))"
    using wf_distinct[OF wf Suc.prems(1)] wf_kids[OF wf Suc.prems(1)] by simp
  have f: "fold (\<lambda>(b, child) acc.
                case acc of
                  Inl e \<Rightarrow> Inl e
                | Inr xs \<Rightarrow> (case reach m h child of
                               Inl e \<Rightarrow> Inl e
                             | Inr ys \<Rightarrow> Inr (xs @ ys)))
              (kids h a) (Inr [a]) = Inr xs" using Suc.prems(2) by simp
  show ?case
    by (rule wf_reach_fold[OF wf Suc.IH e d _ _ f]) simp_all
qed

lemma insert_all_wf_only:
  "wf_ins h fk \<Longrightarrow> \<forall>(k, v) \<in> set kvs. k \<noteq> [] \<Longrightarrow>
   \<exists>h' fk'. insert_all h 0 kvs = Inr h' \<and> wf_ins h' fk'"
proof (induction kvs arbitrary: h fk)
  case Nil
  then show ?case by auto
next
  case (Cons kv kvs)
  obtain k v where kv: "kv = (k, v)" by (cases kv) auto
  have kne: "k \<noteq> []" using Cons.prems(2) kv by simp
  from insert_r_wf[OF Cons.prems(1) wf_pos[OF Cons.prems(1)] kne, of "Suc (length k)" "Some v"]
  obtain h1 c fk1 t1 where res: "insert_r (Suc (length k)) h 0 k (Some v) = Inr (h1, c)"
    and post: "ins_post h fk (fk 0 @ k) (Some v) h1 fk1 t1" by auto
  have wf1: "wf_ins h1 fk1" using post unfolding ins_post_def by simp
  have rest: "\<forall>(k, v) \<in> set kvs. k \<noteq> []" using Cons.prems(2) by auto
  from Cons.IH[OF wf1 rest] res kv show ?case by auto
qed

section \<open>The claims\<close>

text \<open>
  Claim C1, the round trip through Insert. Insert returns nil for every key that is not
  empty and hands only the empty key to insert, so nothing is ever inserted: on a new
  tree, Insert of the key read from "a" with the value 1 leaves the heap as it was and
  returns no node, and Find of the same key then finds no node, \<open>exact = false\<close>.
  Lemma \<open>Insert_inserts_nothing\<close> says it of every call: whenever Insert returns, the
  heap is the one it was given and the node is nil.
\<close>

lemma Insert_inserts_nothing:
  "Insert n MaxKeySize h r rd v = Inr (h', mks, a) \<Longrightarrow> h' = h \<and> a = None"
  by (cases n) (auto simp: Insert_def split: sum.splits if_splits)

lemma Find_find_r:
  "readKey MaxKeySize rd = Inr (k, mks) \<Longrightarrow>
   Find n MaxKeySize h r rd =
     (case find_r n h r k of Inl e \<Rightarrow> Inl e | Inr (a, exact) \<Rightarrow> Inr (mks, a, exact))"
  by (simp add: Find_def)

theorem Insert_then_Find_misses:
  "(let (h, r) = New empty_heap; rd = \<lparr>rd_bytes = ''a'', rd_err = False\<rparr>
    in Insert 3 0 h r rd (Some (1::nat)) = Inr (h, 512, None) \<and>
       Find 3 512 h r rd = Inr (512, None, False))"
  by code_simp

text \<open>
  Claim C2, the empty key. A reader that gives no byte makes readKey return the empty
  key. Insert passes it to insert, and Remove takes it as it is; both read \<open>key[0]\<close>,
  which fails with an index out of range. Only Find answers not-found.
\<close>

theorem empty_key_panics:
  "(let (h, r) = New empty_heap; rd = \<lparr>rd_bytes = [], rd_err = False\<rparr>
    in Insert 3 0 h r rd (Some (1::nat)) = Inl IndexOutOfRange \<and>
       Remove 3 h r [] = Inl IndexOutOfRange \<and>
       Find 3 0 h r rd = Inr (512, None, False))"
  by code_simp



text \<open>
  Claim C3, the ancestor fallback of find. find climbs the parent pointers, and after a
  collapse in Remove they no longer lead along the path from the root. In the tree of a,
  ab, abcd and abce, Remove of a moves the fields of the node of ab (node 2) into the
  node of a (node 1) and leaves node 2 out of the tree: the nodes below the root are 0,
  1, 4, 3 and 5. The parent pointer of the node of c (node 4) still refers to node 2. The
  descent along abc ends in an exact match at node 4, which has no value; its nearest
  ancestor with a value is node 1, now the node of ab. find returns node 2 instead, a
  node that is not in the tree and whose Key is abb. After a further insert of ab with
  the value 9, find of ab returns node 1 with the value 9, and find of abc still returns
  node 2 with the value 2.
\<close>

theorem find_returns_detached_node:
  "insert_all (fst (New empty_heap)) 0
     [(''a'', 1), (''ab'', 2), (''abcd'', 3), (''abce'', 4)] = Inr tree_abcde \<and>
   Remove 9 tree_abcde 0 ''a'' = Inr (tree_abcde_less, Some 1) \<and>
   reach 9 tree_abcde_less 0 = Inr [0, 1, 4, 3, 5] \<and>
   descend 9 tree_abcde_less 0 ''ab'' = Inr (1, True) \<and>
   Value (node tree_abcde_less 1) = Some 2 \<and>
   descend 9 tree_abcde_less 0 ''abc'' = Inr (4, True) \<and>
   Value (node tree_abcde_less 4) = None \<and>
   child_at tree_abcde_less 1 CHR ''c'' = Some 4 \<and>
   parent (node tree_abcde_less 4) = Some 2 \<and>
   find_r 9 tree_abcde_less 0 ''abc'' = Inr (Some 2, False) \<and>
   Key 9 tree_abcde_less 2 = Inr ''abb'' \<and>
   insert_r 9 tree_abcde_less 0 ''ab'' (Some 9) = Inr (tree_abcde_stale, 1) \<and>
   find_r 9 tree_abcde_stale 0 ''ab'' = Inr (Some 1, True) \<and>
   Value (node tree_abcde_stale 1) = Some 9 \<and>
   find_r 9 tree_abcde_stale 0 ''abc'' = Inr (Some 2, False) \<and>
   Value (node tree_abcde_stale 2) = Some 2"
  by code_simp

text \<open>
  Claim C4, the value of the node that Remove returns. Remove returns the node as it is
  after Remove has changed it, and only the case of no child leaves the value in it: in
  the tree of test (aa) and slow (bb), the node returned by Remove of slow has the value
  bb. In the tree of a, ab and ac the node of a has two children; Remove of a clears its
  value, and the node returned has no value where 1 was stored. In the tree of a, ab and
  abc the node of a has one child; Remove of a moves the fields of the child into it, so
  the node returned has the value 2, not 1, and is the node that find of ab returns
  afterwards.
\<close>

theorem Remove_clears_returned_value:
  "insert_all (fst (New empty_heap)) 0 [(''a'', 1), (''ab'', 2), (''ac'', 3)] = Inr tree_a3 \<and>
   descend 1 tree_a3 0 ''a'' = Inr (1, True) \<and> Value (node tree_a3 1) = Some 1 \<and>
   length (kids tree_a3 1) = 2 \<and>
   Remove_Value 9 tree_a3 0 ''a'' = Inr None \<and>
   Remove_Value 9 tree_abc 0 ''a'' = Inr (Some 2) \<and> Value (node tree_abc 1) = Some 1 \<and>
   insert_all (fst (New empty_heap)) 0 [(''a'', 1), (''ab'', 2), (''abc'', 3)] = Inr tree_abc \<and>
   descend 1 tree_abc 0 ''a'' = Inr (1, True) \<and> length (kids tree_abc 1) = 1 \<and>
   Remove 9 tree_abc 0 ''a'' = Inr (tree_abc_less, Some 1) \<and>
   find_r 9 tree_abc_less 0 ''ab'' = Inr (Some 1, True) \<and>
   insert_all (fst (New empty_heap)) 0 [(''test'', ''aa''), (''slow'', ''bb'')] = Inr tree_ts \<and>
   descend 4 tree_ts 0 ''slow'' = Inr (2, True) \<and> Value (node tree_ts 2) = Some ''bb'' \<and>
   kids tree_ts 2 = [] \<and>
   Remove_Value 9 tree_ts 0 ''slow'' = Inr (Some ''bb'')"
  by code_simp

text \<open>
  Claim C5 as stated fails where the key has an exact node without value. In the tree of
  ab and ac the node of a is such a node: find reports no node for a, yet Remove of a
  returns that node.
\<close>

theorem Remove_returns_hollow_node:
  "insert_all (fst (New empty_heap)) 0 [(''ab'', 1), (''ac'', 2)] = Inr tree_ab \<and>
   find_r 9 tree_ab 0 ''a'' = Inr (None, False) \<and>
   descend 1 tree_ab 0 ''a'' = Inr (2, True) \<and> Value (node tree_ab 2) = None \<and>
   Remove 9 tree_ab 0 ''a'' = Inr (tree_ab, Some 2)"
  by code_simp

text \<open>
  Claim C5 as amended. When the descent from \<open>r\<close> along a key \<open>k\<close> that is not empty
  ends without an exact match (no child for the next byte, or a child whose fragment is
  not a prefix of what is left of the key), Remove returns no node and the heap it
  returns is the heap it was given. On a heap a Go program can build the descent always
  ends (lemma \<open>descend_total\<close>).
\<close>

theorem Remove_absent_unchanged:
  assumes "k \<noteq> []" and "descend m h r k = Inr (t, False)" and "m \<le> n"
  shows "Remove n h r k = Inr (h, None)"
  using Remove_descend[OF assms(2,1,3)] by simp



theorem Remove_absent_unchanged_witness:
  "''slot'' \<noteq> [] \<and> descend 4 tree_ts 0 ''slot'' = Inr (0, False) \<and> (4::nat) \<le> 5 \<and>
   Remove 5 tree_ts 0 ''slot'' = Inr (tree_ts, None)"
proof -
  have h1: "''slot'' \<noteq> []" by simp
  have h2: "descend 4 tree_ts 0 ''slot'' = Inr (0, False)" by code_simp
  have h3: "(4::nat) \<le> 5" by simp
  from Remove_absent_unchanged[OF h1 h2 h3] h1 h2 h3 show ?thesis by blast
qed

text \<open>
  Claim C6, Len. Let \<open>xs\<close> list the nodes below \<open>r\<close>, each once (the children form a
  tree). Then Len is the number of nodes of \<open>xs\<close> that have a value. And when the descent
  along \<open>k\<close> ends in an exact match at a node \<open>c\<close> that has a value and two or more
  children, Remove of \<open>k\<close> returns \<open>c\<close> and leaves the same nodes below \<open>r\<close>, \<open>c\<close> among
  them with the children it had and without value, and Len is one less than before.
\<close>

theorem Len_counts_values:
  assumes "heap_ok h" and "r < length (nodes h)" and "reach n h r = Inr xs" and "distinct xs"
  shows "Len n h (Some r) = Inr (count_values h xs) \<and>
         (\<forall>m k c. descend m h r k = Inr (c, True) \<and> has_value h c \<and> 2 \<le> length (kids h c) \<longrightarrow>
            (\<exists>h'. Remove m h r k = Inr (h', Some c) \<and>
                  reach n h' r = Inr xs \<and> c \<in> set xs \<and> kids h' c = kids h c \<and>
                  \<not> has_value h' c \<and>
                  Len n h' (Some r) = Inr (count_values h xs - 1)))"
proof (intro conjI allI impI)
  show L: "Len n h (Some r) = Inr (count_values h xs)" using Len_reach[OF assms(3)] .
  fix m k c
  assume a: "descend m h r k = Inr (c, True) \<and> has_value h c \<and> 2 \<le> length (kids h c)"
  then have d: "descend m h r k = Inr (c, True)" and v: "has_value h c"
    and two: "2 \<le> length (kids h c)" by auto
  have c: "c < length (nodes h)" using descend_valid[OF assms(1,2) d] .
  have cin: "c \<in> set xs" using descend_in_reach[OF d assms(3)] .
  from Remove_descend[OF d descend_exact_nonempty[OF d] order_refl]
  obtain p b where "Remove m h r k =
             Inr (case kids h c of
                    [] \<Rightarrow> delete_child h p b
                  | [(x, s)] \<Rightarrow> collapse h p c s
                  | _ \<Rightarrow> set_Value h c None, Some c)" by auto
  then have R: "Remove m h r k = Inr (set_Value h c None, Some c)"
    using two by (auto split: list.splits)
  have "has_value (set_Value h c None) = (\<lambda>a. has_value h a \<and> a \<noteq> c)"
    using c by (auto simp: has_value_set_Value_None)
  then have cnt: "count_values (set_Value h c None) xs = count_values h xs - 1"
    using filter_remove1_length[OF assms(4) cin, of "has_value h"] v
    by (simp add: count_values_def)
  have "reach n (set_Value h c None) r = Inr xs" using assms(3) by simp
  moreover have "Len n (set_Value h c None) (Some r) = Inr (count_values h xs - 1)"
    using Len_reach[of n "set_Value h c None" r xs] assms(3) cnt by simp
  moreover have "\<not> has_value (set_Value h c None) c"
    using c by (simp add: has_value_set_Value_None)
  ultimately
  show "\<exists>h'. Remove m h r k = Inr (h', Some c) \<and>
                  reach n h' r = Inr xs \<and> c \<in> set xs \<and> kids h' c = kids h c \<and>
                  \<not> has_value h' c \<and>
                  Len n h' (Some r) = Inr (count_values h xs - 1)"
    using R cin by auto
qed


theorem Len_counts_values_witness:
  "insert_all (fst (New empty_heap)) 0 [(''a'', 1), (''ab'', 2), (''ac'', 3)] = Inr tree_a3 \<and>
   heap_ok tree_a3 \<and> 0 < length (nodes tree_a3) \<and>
   reach 4 tree_a3 0 = Inr [0, 1, 2, 3] \<and> distinct [0, 1, 2, 3 :: nat] \<and>
   descend 1 tree_a3 0 ''a'' = Inr (1, True) \<and> has_value tree_a3 1 \<and>
   2 \<le> length (kids tree_a3 1) \<and>
   Len 4 tree_a3 (Some 0) = Inr 3 \<and>
   Remove 1 tree_a3 0 ''a'' = Inr (tree_a3_less, Some 1) \<and>
   Len 4 tree_a3_less (Some 0) = Inr 2"
proof -
  have b: "insert_all (fst (New empty_heap)) 0 [(''a'', 1), (''ab'', 2), (''ac'', 3)] = Inr tree_a3"
    by code_simp
  have h1: "heap_ok tree_a3" by code_simp
  have h2: "0 < length (nodes tree_a3)" by code_simp
  have h3: "reach 4 tree_a3 0 = Inr [0, 1, 2, 3]" by code_simp
  have h4: "distinct [0, 1, 2, 3 :: nat]" by simp
  have d: "descend 1 tree_a3 0 ''a'' = Inr (1, True)" by code_simp
  have v: "has_value tree_a3 1" by code_simp
  have two: "2 \<le> length (kids tree_a3 1)" by code_simp
  have c: "count_values tree_a3 [0, 1, 2, 3] = 3" by code_simp
  have R: "Remove 1 tree_a3 0 ''a'' = Inr (tree_a3_less, Some 1)" by code_simp
  note T = Len_counts_values[OF h1 h2 h3 h4]
  have L: "Len 4 tree_a3 (Some 0) = Inr 3" using T c by (simp only:)
  from T d v two obtain h' where
    h': "Remove 1 tree_a3 0 ''a'' = Inr (h', Some 1)"
    and L': "Len 4 h' (Some 0) = Inr (count_values tree_a3 [0, 1, 2, 3] - 1)"
    by blast
  have "h' = tree_a3_less" using h' R by (simp only: sum.inject prod.inject)
  then have "Len 4 tree_a3_less (Some 0) = Inr 2" using L' c by (simp only:) simp
  with b h1 h2 h3 h4 d v two R L show ?thesis by blast
qed

text \<open>
  Claim C7, the ring of Next and Prev. In the tree of xa, xbc and xbd the nodes of xb and
  x have no value. Next of xa is xbc, but Prev of xbc is xbd and not xa: Prev goes up
  past the nodes without value to the root and down to the largest leaf, and never looks
  at their smaller siblings. And Next of xbd, the last key, is the node of x, which has
  no value, so the ring of Next passes through a node that is no entry.
\<close>

theorem Next_then_Prev_not_back:
  "insert_all (fst (New empty_heap)) 0 [(''xa'', 1), (''xbc'', 2), (''xbd'', 3)] = Inr tree_xa \<and>
   Key 9 tree_xa 1 = Inr ''xa'' \<and> Next 9 tree_xa 1 = Inr (Some 3) \<and>
   Key 9 tree_xa 3 = Inr ''xbc'' \<and> Prev 9 tree_xa 3 = Inr (Some 5) \<and>
   Key 9 tree_xa 5 = Inr ''xbd'' \<and> Next 9 tree_xa 5 = Inr (Some 2) \<and>
   Value (node tree_xa 2) = None"
  by code_simp

text \<open>
  Claim C8, Next returns a node with a value. In the tree of ab and ac, Next of ac goes
  up to the root, which returns its child: the node of a, without value. In the tree of
  z, zab, zac, zbcd, zbce and zbf, Next of zac finds the sibling zb one level up; next
  steps down from a node without value once, not until a value is met, and returns the
  node of zbc, without value.
\<close>

theorem Next_returns_hollow_node:
  "insert_all (fst (New empty_heap)) 0 [(''ab'', 1), (''ac'', 2)] = Inr tree_ab \<and>
   Key 9 tree_ab 3 = Inr ''ac'' \<and> Value (node tree_ab 3) = Some 2 \<and>
   Next 9 tree_ab 3 = Inr (Some 2) \<and> Value (node tree_ab 2) = None \<and>
   insert_all (fst (New empty_heap)) 0
     [(''z'', 0), (''zab'', 1), (''zac'', 2), (''zbcd'', 3), (''zbce'', 4), (''zbf'', 5)] = Inr tree_z \<and>
   Key 9 tree_z 4 = Inr ''zac'' \<and> Value (node tree_z 4) = Some 2 \<and>
   Next 9 tree_z 4 = Inr (Some 6) \<and> Value (node tree_z 6) = None"
  by code_simp

text \<open>
  Claim C9, the tree with one entry. Remove of ac from the tree of ab and ac leaves ab as
  the only entry (Len is 1), below the node of a, which has no value. Prev of ab is ab,
  but Next of ab is the node of a.
\<close>

theorem single_entry_Next_not_self:
  "insert_all (fst (New empty_heap)) 0 [(''ab'', 1), (''ac'', 2)] = Inr tree_ab \<and>
   Remove 9 tree_ab 0 ''ac'' = Inr (tree_ab_less, Some 3) \<and>
   Len 9 tree_ab_less (Some 0) = Inr 1 \<and>
   Key 9 tree_ab_less 1 = Inr ''ab'' \<and> Value (node tree_ab_less 1) = Some 1 \<and>
   Next 9 tree_ab_less 1 = Inr (Some 2) \<and> Value (node tree_ab_less 2) = None \<and>
   Prev 9 tree_ab_less 1 = Inr (Some 1)"
  by code_simp

text \<open>
  Claim C10, the links after a collapse. In the tree of a, ab and abc, Remove of a finds
  one child below the node of a (node 1) and moves the fields of that child (node 2) into
  node 1. The child's own child, the node of c (node 3), is now an entry of the map of
  node 1, but its parent pointer still refers to node 2, and Key of node 3 is abbc where
  the path from the root reads abc.
\<close>

theorem collapse_leaves_stale_parent:
  "insert_all (fst (New empty_heap)) 0 [(''a'', 1), (''ab'', 2), (''abc'', 3)] = Inr tree_abc \<and>
   Remove 9 tree_abc 0 ''a'' = Inr (tree_abc_less, Some 1) \<and>
   child_at tree_abc_less 0 CHR ''a'' = Some 1 \<and> key (node tree_abc_less 1) = ''ab'' \<and>
   child_at tree_abc_less 1 CHR ''c'' = Some 3 \<and> key (node tree_abc_less 3) = ''c'' \<and>
   parent (node tree_abc_less 3) = Some 2 \<and>
   Key 9 tree_abc_less 3 = Inr ''abbc''"
  by code_simp

section \<open>Further properties\<close>

subsection \<open>find and Remove\<close>

text \<open>
  What find returns, read along the parent pointers. On a heap a Go program can build,
  with acyclic parent pointers, and for a key that is not empty, find returns (with fuel
  for the length of the key and for the number of nodes). Its result is fixed by the node \<open>t\<close> where the
  descent ends and by the parent chain \<open>as\<close> of \<open>t\<close>, which starts with \<open>t\<close>: when the
  descent ends in an exact match at a node with a value, that node and \<open>exact = true\<close>;
  in every other case \<open>exact = false\<close> and the first node of the chain that has a value,
  and no node when the chain has none. So a node that find returns has a value. The chain
  is the path to the root as long as only insert has worked on the tree; after a collapse
  in Remove it need not be.
\<close>

theorem find_ancestor_fallback:
  assumes "heap_ok h" and "r < length (nodes h)" and "parents_acyclic h"
    and "k \<noteq> []" and "length k + length (nodes h) \<le> n"
  shows "\<exists>t ex as.
           descend (length k) h r k = Inr (t, ex) \<and>
           chain (length (nodes h)) h t = Some as \<and>
           find_r n h r k =
             Inr (if ex \<and> has_value h t then (Some t, True)
                  else (List.find (has_value h) as, False)) \<and>
           (\<forall>a e. find_r n h r k = Inr (Some a, e) \<longrightarrow> has_value h a)"
proof -
  obtain t ex where d: "descend (length k) h r k = Inr (t, ex)" and t: "t < length (nodes h)"
    using descend_total[OF assms(1,2), of k "length k"] by auto
  have "t \<in> set [0 ..< length (nodes h)]" using t by simp
  then have "chain (length (nodes h)) h t \<noteq> None"
    using assms(3) unfolding parents_acyclic_def by blast
  then obtain as where as: "chain (length (nodes h)) h t = Some as" by blast
  note f = find_r_descend[OF d assms(4) as assms(5)]
  have "has_value h a" if "find_r n h r k = Inr (Some a, e)" for a e
  proof (cases "ex \<and> has_value h t")
    case True
    then show ?thesis using f that by simp
  next
    case False
    then have "find_r n h r k = Inr (List.find (has_value h) as, False)" using f by auto
    then have "List.find (has_value h) as = Some a" using that by simp
    then show ?thesis by (auto simp: find_Some_iff)
  qed
  with f d as show ?thesis by blast
qed

text \<open>
  An instance: in the tree of x, xbc and xbd the descent along xb ends in an exact match
  at the node of xb (node 3), which has no value; its parent chain is 3, 1, 0, and find
  returns node 1, the node of x, with \<open>exact = false\<close>.
\<close>

theorem find_ancestor_fallback_witness:
  "insert_all (fst (New empty_heap)) 0 [(''x'', 1), (''xbc'', 2), (''xbd'', 3)] = Inr tree_x \<and>
   heap_ok tree_x \<and> 0 < length (nodes tree_x) \<and> parents_acyclic tree_x \<and>
   ''xb'' \<noteq> [] \<and> length ''xb'' + length (nodes tree_x) \<le> 7 \<and>
   descend (length ''xb'') tree_x 0 ''xb'' = Inr (3, True) \<and>
   chain (length (nodes tree_x)) tree_x 3 = Some [3, 1, 0] \<and>
   find_r 7 tree_x 0 ''xb'' = Inr (Some 1, False)"
proof -
  have b: "insert_all (fst (New empty_heap)) 0 [(''x'', 1), (''xbc'', 2), (''xbd'', 3)] = Inr tree_x"
    by code_simp
  have h1: "heap_ok tree_x" by code_simp
  have h2: "0 < length (nodes tree_x)" by code_simp
  have h3: "parents_acyclic tree_x" by code_simp
  have h4: "''xb'' \<noteq> []" by simp
  have h5: "length ''xb'' + length (nodes tree_x) \<le> 7" by code_simp
  have d: "descend (length ''xb'') tree_x 0 ''xb'' = Inr (3, True)" by code_simp
  have c: "chain (length (nodes tree_x)) tree_x 3 = Some [3, 1, 0]" by code_simp
  have v: "\<not> has_value tree_x 3" "\<not> has_value tree_x 3" "has_value tree_x 1" by code_simp+
  from find_ancestor_fallback[OF h1 h2 h3 h4 h5] d c v
  have "find_r 7 tree_x 0 ''xb'' = Inr (Some 1, False)" by auto
  with b h1 h2 h3 h4 h5 d c show ?thesis by blast
qed

text \<open>
  What the node that Remove returns holds, in each of the three cases of Remove. When the
  descent from \<open>r\<close> along \<open>k\<close> ends in an exact match at the node \<open>c\<close>, which holds the value \<open>v\<close>, Remove returns \<open>c\<close>; the value read through
  the returned node is \<open>v\<close> when \<open>c\<close> had no child, the value of its only child when it
  had one child, and absent when it had two or more.
\<close>

theorem Remove_returned_value:
  assumes "heap_ok h" and "r < length (nodes h)"
    and "descend m h r k = Inr (c, True)" and "Value (node h c) = Some v" and "m \<le> n"
  shows "\<exists>h'. Remove n h r k = Inr (h', Some c) \<and>
           Value (node h' c) =
             (case kids h c of
                [] \<Rightarrow> Some v
              | [(b, s)] \<Rightarrow> Value (node h s)
              | _ \<Rightarrow> None)"
proof -
  have c: "c < length (nodes h)" using descend_valid[OF assms(1,2,3)] .
  from Remove_descend[OF assms(3) descend_exact_nonempty[OF assms(3)] assms(5)]
  obtain p b where R: "Remove n h r k =
             Inr (case kids h c of
                    [] \<Rightarrow> delete_child h p b
                  | [(x, s)] \<Rightarrow> collapse h p c s
                  | _ \<Rightarrow> set_Value h c None, Some c)" by auto
  show ?thesis
    unfolding R using c assms(4)
    by (auto simp: Value_set_Value Value_collapse split: list.splits)
qed

text \<open>
  An instance: in the tree of test (aa) and slow (bb), the node of slow has
  no child, and the node that Remove of slow returns has the value bb.
\<close>

theorem Remove_returned_value_witness:
  "insert_all (fst (New empty_heap)) 0 [(''test'', ''aa''), (''slow'', ''bb'')] = Inr tree_ts \<and>
   heap_ok tree_ts \<and> 0 < length (nodes tree_ts) \<and>
   descend 4 tree_ts 0 ''slow'' = Inr (2, True) \<and> Value (node tree_ts 2) = Some ''bb'' \<and>
   kids tree_ts 2 = [] \<and> Remove_Value 5 tree_ts 0 ''slow'' = Inr (Some ''bb'')"
proof -
  have b: "insert_all (fst (New empty_heap)) 0 [(''test'', ''aa''), (''slow'', ''bb'')] = Inr tree_ts"
    by code_simp
  have h1: "heap_ok tree_ts" by code_simp
  have h2: "0 < length (nodes tree_ts)" by code_simp
  have h3: "descend 4 tree_ts 0 ''slow'' = Inr (2, True)" by code_simp
  have h4: "Value (node tree_ts 2) = Some ''bb''" by code_simp
  have h5: "(4::nat) \<le> 5" by simp
  have k: "kids tree_ts 2 = []" by code_simp
  from Remove_returned_value[OF h1 h2 h3 h4 h5] k
  have "Remove_Value 5 tree_ts 0 ''slow'' = Inr (Some ''bb'')"
    by (auto simp: Remove_Value_def)
  with b h1 h2 h3 h4 k show ?thesis by blast
qed

subsection \<open>insert\<close>

text \<open>
  The round trip of insert and find, the functions under Insert and Find that take the
  key itself: insert the pairs of a list with distinct keys, none
  empty, into a new tree, one after the other; every insert returns, and afterwards find
  of each key returns a node with \<open>exact = true\<close> that holds the value inserted with
  the key.
\<close>

theorem insert_round_trip:
  assumes "nonempty_keys kvs" and "distinct (map fst kvs)"
  shows "\<exists>h. insert_all (fst (New empty_heap)) 0 kvs = Inr h \<and>
           (\<forall>(k, v) \<in> set kvs.
              \<exists>c. find_r (length k) h 0 k = Inr (Some c, True) \<and> Value (node h c) = Some v)"
proof -
  have ne: "\<forall>(k, v) \<in> set kvs. k \<noteq> []" using assms(1) by (simp add: nonempty_keys_def)
  from insert_all_wf[OF wf_ins_New ne assms(2)] obtain h fk where
    r1: "insert_all (fst (New empty_heap)) 0 kvs = Inr h" and wf: "wf_ins h fk"
    and r4: "\<forall>(k, v) \<in> set kvs. \<exists>t < length (nodes h). fk t = k \<and> Value (nodes h ! t) = Some v"
    by blast
  have "\<exists>c. find_r (length k) h 0 k = Inr (Some c, True) \<and> Value (node h c) = Some v"
    if "(k, v) \<in> set kvs" for k v
  proof -
    from r4 that obtain t where t: "t < length (nodes h)" "fk t = k" "Value (nodes h ! t) = Some v"
      by blast
    have "k \<noteq> []" using ne that by auto
    then have "t \<noteq> 0" using t(2) wf_fk0[OF wf] by (cases "t = 0") simp_all
    from descend_fk[OF wf t(1) this] obtain m where m: "m \<le> length k"
      "descend m h 0 k = Inr (t, True)" using t(2) by auto
    have "has_value h t" using t(3) by (simp add: has_value_def node_def)
    from find_r_exact[OF m(2) this m(1)] show ?thesis using t(3) by (auto simp: node_def)
  qed
  then show ?thesis using r1 by blast
qed



theorem insert_round_trip_witness:
  "nonempty_keys [(''test'', 1), (''tester'', 2), (''team'', 3), (''te'', 4 :: nat)] \<and>
   distinct (map fst [(''test'', 1), (''tester'', 2), (''team'', 3), (''te'', 4 :: nat)]) \<and>
   insert_all (fst (New empty_heap)) 0
     [(''test'', 1), (''tester'', 2), (''team'', 3), (''te'', 4)] = Inr tree_split \<and>
   (\<exists>c. find_r (length ''test'') tree_split 0 ''test'' = Inr (Some c, True) \<and>
        Value (node tree_split c) = Some 1) \<and>
   (\<exists>c. find_r (length ''tester'') tree_split 0 ''tester'' = Inr (Some c, True) \<and>
        Value (node tree_split c) = Some 2) \<and>
   (\<exists>c. find_r (length ''team'') tree_split 0 ''team'' = Inr (Some c, True) \<and>
        Value (node tree_split c) = Some 3) \<and>
   (\<exists>c. find_r (length ''te'') tree_split 0 ''te'' = Inr (Some c, True) \<and>
        Value (node tree_split c) = Some 4)"
proof -
  define kvs :: "(string \<times> nat) list" where
    "kvs = [(''test'', 1), (''tester'', 2), (''team'', 3), (''te'', 4)]"
  have h1: "nonempty_keys kvs" by (simp add: kvs_def nonempty_keys_def)
  have h2: "distinct (map fst kvs)" by (simp add: kvs_def)
  have b: "insert_all (fst (New empty_heap)) 0 kvs = Inr tree_split"
    unfolding kvs_def by code_simp
  from insert_round_trip[OF h1 h2] b
  have "\<forall>(k, v) \<in> set kvs.
          \<exists>c. find_r (length k) tree_split 0 k = Inr (Some c, True) \<and>
              Value (node tree_split c) = Some v" by simp
  then show ?thesis using h1 h2 b unfolding kvs_def by simp
qed

text \<open>
  The links between parents and children as long as only insert has worked on the tree.
  After the inserts of a list of pairs whose keys are not empty, the heap is one a Go program can
  build, its parent pointers are acyclic, and the children form a tree below the root;
  every entry \<open>(b, c)\<close> of the map of a node \<open>a\<close> is a node \<open>c\<close> whose fragment is not
  empty and starts with \<open>b\<close> and whose parent is \<open>a\<close>; and Key of a node is the key along
  which the descent from the root ends at that node.
\<close>

theorem insert_links_coherent:
  assumes "nonempty_keys kvs"
  shows "\<exists>h. insert_all (fst (New empty_heap)) 0 kvs = Inr h \<and>
           heap_ok h \<and> parents_acyclic h \<and>
           (\<exists>xs. reach (length (nodes h)) h 0 = Inr xs \<and> distinct xs) \<and>
           (\<forall>a < length (nodes h). \<forall>(b, c) \<in> set (kids h a).
              key (node h c) \<noteq> [] \<and> hd (key (node h c)) = b \<and> parent (node h c) = Some a) \<and>
           (\<forall>c < length (nodes h). c \<noteq> 0 \<longrightarrow>
              (\<exists>k. Key (length (nodes h)) h c = Inr k \<and>
                   descend (length k) h 0 k = Inr (c, True)))"
proof -
  have ne: "\<forall>(k, v) \<in> set kvs. k \<noteq> []" using assms by (simp add: nonempty_keys_def)
  from insert_all_wf_only[OF wf_ins_New ne] obtain h fk where
    r: "insert_all (fst (New empty_heap)) 0 kvs = Inr h" and wf: "wf_ins h fk" by blast
  have links: "key (node h c) \<noteq> [] \<and> hd (key (node h c)) = b \<and> parent (node h c) = Some a"
    if "a < length (nodes h)" "(b, c) \<in> set (kids h a)" for a b c
    using wf_entry[OF wf that(1), of b c] that by (simp add: wf_kids[OF wf] node_def)
  have keys: "\<exists>k. Key (length (nodes h)) h c = Inr k \<and> descend (length k) h 0 k = Inr (c, True)"
    if c: "c < length (nodes h)" "c \<noteq> 0" for c
  proof -
    have K: "Key (length (nodes h)) h c = Inr (fk c)" using Key_fk[OF wf c(1)] .
    from descend_fk[OF wf c] obtain m where m: "m \<le> length (fk c)"
      "descend m h 0 (fk c) = Inr (c, True)" by blast
    have "descend (m + (length (fk c) - m)) h 0 (fk c) = Inr (c, True)"
      using m(2) by (rule descend_mono)
    then have D: "descend (length (fk c)) h 0 (fk c) = Inr (c, True)" using m(1) by simp
    show ?thesis using K D by blast
  qed
  have "chain (Suc 0) h 0 = Some [0]" using wf_root[OF wf] by (simp add: node_def)
  from wf_reach_total[OF wf wf_pos[OF wf] this, of "length (nodes h)"]
  obtain xs where xs: "reach (length (nodes h)) h 0 = Inr xs" by auto
  have tree: "\<exists>xs. reach (length (nodes h)) h 0 = Inr xs \<and> distinct xs"
    using xs wf_reach_distinct[OF wf wf_pos[OF wf] xs] by blast
  show ?thesis
    using r wf_heap_ok[OF wf] wf_parents_acyclic[OF wf] tree links keys by blast
qed

theorem insert_links_coherent_witness:
  "nonempty_keys [(''test'', 1), (''tester'', 2), (''team'', 3), (''te'', 4 :: nat)] \<and>
   insert_all (fst (New empty_heap)) 0
     [(''test'', 1), (''tester'', 2), (''team'', 3), (''te'', 4)] = Inr tree_split \<and>
   heap_ok tree_split \<and> parents_acyclic tree_split \<and>
   reach (length (nodes tree_split)) tree_split 0 = Inr [0, 3, 1, 2, 4] \<and>
   kids tree_split 3 = [(CHR ''s'', 1), (CHR ''a'', 4)] \<and>
   parent (node tree_split 1) = Some 3 \<and> parent (node tree_split 4) = Some 3 \<and>
   Key (length (nodes tree_split)) tree_split 2 = Inr ''tester'' \<and>
   descend (length ''tester'') tree_split 0 ''tester'' = Inr (2, True)"
proof -
  define kvs :: "(string \<times> nat) list" where
    "kvs = [(''test'', 1), (''tester'', 2), (''team'', 3), (''te'', 4)]"
  have h1: "nonempty_keys kvs" by (simp add: kvs_def nonempty_keys_def)
  have b: "insert_all (fst (New empty_heap)) 0 kvs = Inr tree_split"
    unfolding kvs_def by code_simp
  from insert_links_coherent[OF h1] b
  have ok: "heap_ok tree_split" "parents_acyclic tree_split" by simp_all
  have r: "reach (length (nodes tree_split)) tree_split 0 = Inr [0, 3, 1, 2, 4]" by code_simp
  have k: "kids tree_split 3 = [(CHR ''s'', 1), (CHR ''a'', 4)]" by code_simp
  have p: "parent (node tree_split 1) = Some 3" "parent (node tree_split 4) = Some 3"
    by code_simp+
  have K: "Key (length (nodes tree_split)) tree_split 2 = Inr ''tester''" by code_simp
  have d: "descend (length ''tester'') tree_split 0 ''tester'' = Inr (2, True)" by code_simp
  show ?thesis using h1 b ok r k p K d unfolding kvs_def by simp
qed

end
